theory Spec2Isabelle
  imports Main "HOL-Library.AList"
begin

section \<open>Costs: Python numbers with \<open>float('inf')\<close>\<close>

text \<open>
  A link cost or a route cost is a Python number. The program builds costs from the
  integers given to \<open>connectNodes\<close>, from \<open>float('inf')\<close> and from sums of these, so a
  cost is an unbounded integer or plus infinity. Addition with infinity gives infinity,
  and \<open>inf < inf\<close> is false, as for IEEE floats.
\<close>

datatype cost = Fin int | Inf

instantiation cost :: "{zero, plus, linorder}"
begin

definition zero_cost :: cost where
  "zero_cost = Fin 0"

fun plus_cost :: "cost \<Rightarrow> cost \<Rightarrow> cost" where
  "plus_cost (Fin a) (Fin b) = Fin (a + b)"
| "plus_cost (Fin a) Inf = Inf"
| "plus_cost Inf c = Inf"

fun less_cost :: "cost \<Rightarrow> cost \<Rightarrow> bool" where
  "less_cost (Fin a) (Fin b) = (a < b)"
| "less_cost (Fin a) Inf = True"
| "less_cost Inf c = False"

fun less_eq_cost :: "cost \<Rightarrow> cost \<Rightarrow> bool" where
  "less_eq_cost (Fin a) (Fin b) = (a \<le> b)"
| "less_eq_cost c Inf = True"
| "less_eq_cost Inf (Fin b) = False"

instance
proof
  fix x y z :: cost
  show "(x < y) = (x \<le> y \<and> \<not> y \<le> x)"
    by (cases x; cases y) auto
  show "x \<le> x"
    by (cases x) auto
  show "x \<le> y \<Longrightarrow> y \<le> z \<Longrightarrow> x \<le> z"
    by (cases x; cases y; cases z) auto
  show "x \<le> y \<Longrightarrow> y \<le> x \<Longrightarrow> x = y"
    by (cases x; cases y) auto
  show "x \<le> y \<or> y \<le> x"
    by (cases x; cases y) auto
qed

end

section \<open>Dictionaries\<close>

text \<open>
  A Python \<open>dict\<close> keeps its keys in insertion order, and the loops of the program run
  over \<open>items()\<close> and \<open>keys()\<close> in that order. A dictionary is therefore an association
  list: \<open>d.get(k)\<close> is \<open>map_of d k\<close>, \<open>k in d\<close> is \<open>map_of d k \<noteq> None\<close>, and \<open>d[k] = v\<close> is
  \<open>AList.update k v d\<close>, which replaces the value in place when the key is present and
  appends the pair otherwise.
\<close>

type_synonym node_id = string

type_synonym route = "cost \<times> node_id option"

type_synonym ('k, 'v) dict = "('k \<times> 'v) list"

definition has_key :: "('k, 'v) dict \<Rightarrow> 'k \<Rightarrow> bool" where
  "has_key d k = (map_of d k \<noteq> None)"

definition keys :: "('k, 'v) dict \<Rightarrow> 'k list" where
  "keys d = map fst d"

text \<open>\<open>table.get(destination, (float('inf'), None))\<close>\<close>

definition get_route :: "(node_id, route) dict \<Rightarrow> node_id \<Rightarrow> route" where
  "get_route t destination = (case map_of t destination of None \<Rightarrow> (Inf, None) | Some e \<Rightarrow> e)"

section \<open>Node\<close>

record node =
  name :: node_id
  routingTable :: "(node_id, route) dict"
  neighbors :: "(node_id, cost) dict"

datatype error = KeyError node_id

text \<open>\<open>Node.__init__\<close>: the table holds the self entry only, and there is no neighbor.\<close>

definition Node :: "node_id \<Rightarrow> node" where
  "Node n = \<lparr>name = n, routingTable = [(n, (Fin 0, Some n))], neighbors = []\<rparr>"

text \<open>
  \<open>Node.updateRoutingTable\<close>. The loop runs over the items of the neighbor's table and
  carries the node and the flag \<open>updated\<close>. \<open>self.neighbors[neighborName]\<close> raises
  \<open>KeyError\<close> when the key is missing; it is evaluated only for a destination other than
  the node's own name, after the read of the current entry and before any write of that
  iteration.
\<close>

fun updateRoutingTable_loop ::
  "node \<Rightarrow> node_id \<Rightarrow> (node_id, route) dict \<Rightarrow> bool \<Rightarrow> error + (bool \<times> node)" where
  "updateRoutingTable_loop self neighborName [] updated = Inr (updated, self)"
| "updateRoutingTable_loop self neighborName ((destination, (neighborCost, nextHop)) # rest) updated =
     (if destination = name self then updateRoutingTable_loop self neighborName rest updated
      else
        let current_cost = fst (get_route (routingTable self) destination) in
          (case map_of (neighbors self) neighborName of
             None \<Rightarrow> Inl (KeyError neighborName)
           | Some linkCost \<Rightarrow>
               let new_cost = linkCost + neighborCost in
                 if new_cost < current_cost
                 then updateRoutingTable_loop
                        (self\<lparr>routingTable :=
                           AList.update destination (new_cost, Some neighborName) (routingTable self)\<rparr>)
                        neighborName rest True
                 else updateRoutingTable_loop self neighborName rest updated))"

definition updateRoutingTable ::
  "node \<Rightarrow> node_id \<Rightarrow> (node_id, route) dict \<Rightarrow> error + (bool \<times> node)" where
  "updateRoutingTable self neighborName neighborTable =
     updateRoutingTable_loop self neighborName neighborTable False"

text \<open>\<open>Node.shareTable\<close> returns the table itself, not a copy.\<close>

definition shareTable :: "node \<Rightarrow> (node_id, route) dict" where
  "shareTable self = routingTable self"

definition disconnectNeighbor :: "node \<Rightarrow> node_id \<Rightarrow> node" where
  "disconnectNeighbor self neighborName =
     (if has_key (neighbors self) neighborName
      then self\<lparr>neighbors := AList.update neighborName Inf (neighbors self),
                routingTable := AList.update neighborName (Inf, None) (routingTable self)\<rparr>
      else self)"

section \<open>Network\<close>

record network =
  nodes :: "(node_id, node) dict"

definition Network :: network where
  "Network = \<lparr>nodes = []\<rparr>"

definition addNode :: "node_id \<Rightarrow> network \<Rightarrow> network" where
  "addNode n net = net\<lparr>nodes := AList.update n (Node n) (nodes net)\<rparr>"

text \<open>
  \<open>self.nodes[k].f(...)\<close> for a method that mutates the node under key \<open>k\<close>. Every
  use in the program is guarded by \<open>k in self.nodes\<close>; for a missing key the network is
  returned as it is.
\<close>

definition on_node :: "node_id \<Rightarrow> (node \<Rightarrow> node) \<Rightarrow> network \<Rightarrow> network" where
  "on_node k f net =
     (case map_of (nodes net) k of
        None \<Rightarrow> net
      | Some nd \<Rightarrow> net\<lparr>nodes := AList.update k (f nd) (nodes net)\<rparr>)"

definition connectNodes :: "node_id \<Rightarrow> node_id \<Rightarrow> cost \<Rightarrow> network \<Rightarrow> network" where
  "connectNodes node1 node2 c net =
     (if has_key (nodes net) node1 \<and> has_key (nodes net) node2
      then
        on_node node2 (\<lambda>nd. nd\<lparr>routingTable := AList.update node1 (c, Some node1) (routingTable nd)\<rparr>)
       (on_node node1 (\<lambda>nd. nd\<lparr>routingTable := AList.update node2 (c, Some node2) (routingTable nd)\<rparr>)
       (on_node node2 (\<lambda>nd. nd\<lparr>neighbors := AList.update node1 c (neighbors nd)\<rparr>)
       (on_node node1 (\<lambda>nd. nd\<lparr>neighbors := AList.update node2 c (neighbors nd)\<rparr>) net)))
      else net)"

text \<open>
  \<open>Network.simulateIteration\<close>. The outer loop runs over the nodes in dictionary order,
  the inner loop over the keys of the node's neighbor map. Neither dictionary is changed
  during a round (only routing tables are), so both loops run over the key lists as they
  stand when the loop starts. The node under the loop variable \<open>node\<close> is carried by
  the inner loop and written back to the network after every call, so that
  \<open>self.nodes[neighborName].shareTable()\<close> always reads the live table, also when the
  neighbor is the node itself. (In that case the loop of \<open>updateRoutingTable\<close> runs over
  the table it writes to; it only overwrites the entry of the key it is visiting, after
  reading it, so passing the table by value gives the same result.)
\<close>

fun neighbors_loop ::
  "node_id \<Rightarrow> node \<Rightarrow> node_id list \<Rightarrow> network \<Rightarrow> bool \<Rightarrow> error + (bool \<times> network)" where
  "neighbors_loop nodeName node_v [] net updated = Inr (updated, net)"
| "neighbors_loop nodeName node_v (neighborName # rest) net updated =
     (case map_of (nodes net) neighborName of
        None \<Rightarrow> neighbors_loop nodeName node_v rest net updated
      | Some nb \<Rightarrow>
          (case updateRoutingTable node_v neighborName (shareTable nb) of
             Inl e \<Rightarrow> Inl e
           | Inr (u, node') \<Rightarrow>
               neighbors_loop nodeName node' rest
                 (net\<lparr>nodes := AList.update nodeName node' (nodes net)\<rparr>) (updated \<or> u)))"

fun nodes_loop :: "node_id list \<Rightarrow> network \<Rightarrow> bool \<Rightarrow> error + (bool \<times> network)" where
  "nodes_loop [] net updated = Inr (updated, net)"
| "nodes_loop (nodeName # rest) net updated =
     (case map_of (nodes net) nodeName of
        None \<Rightarrow> nodes_loop rest net updated
      | Some node_v \<Rightarrow>
          (case neighbors_loop nodeName node_v (keys (neighbors node_v)) net updated of
             Inl e \<Rightarrow> Inl e
           | Inr (u, net') \<Rightarrow> nodes_loop rest net' u))"

definition simulateIteration :: "network \<Rightarrow> error + (bool \<times> network)" where
  "simulateIteration net = nodes_loop (keys (nodes net)) net False"

text \<open>
  \<open>Network.simulateFailure\<close>. The function has no \<open>raise\<close>: for an unknown id it prints
  one line and returns. The result is the list of lines printed and the network.
\<close>

definition simulateFailure :: "node_id \<Rightarrow> node_id \<Rightarrow> network \<Rightarrow> error + (string list \<times> network)" where
  "simulateFailure node1 node2 net =
     (if \<not> has_key (nodes net) node1 \<or> \<not> has_key (nodes net) node2
      then Inr ([''Errore: '' @ node1 @ '' o '' @ node2 @ '' non esiste nella rete.''], net)
      else Inr ([], on_node node2 (\<lambda>nd. disconnectNeighbor nd node1)
                     (on_node node1 (\<lambda>nd. disconnectNeighbor nd node2) net)))"

text \<open>
  The two loops of the driver: at most \<open>cap\<close> rounds (\<open>range(100)\<close> in the script),
  stopping after the first round that returns \<open>False\<close>. The result is the number of
  rounds run, whether the last one returned \<open>False\<close>, and the network.
\<close>

fun driver_loop :: "nat \<Rightarrow> network \<Rightarrow> error + (nat \<times> bool \<times> network)" where
  "driver_loop 0 net = Inr (0, False, net)"
| "driver_loop (Suc k) net =
     (case simulateIteration net of
        Inl e \<Rightarrow> Inl e
      | Inr (updated, net') \<Rightarrow>
          if \<not> updated then Inr (1, True, net')
          else (case driver_loop k net' of
                  Inl e \<Rightarrow> Inl e
                | Inr (r, conv, net'') \<Rightarrow> Inr (Suc r, conv, net'')))"

text \<open>The topology the script builds.\<close>

definition driver_network :: network where
  "driver_network =
     connectNodes ''A'' ''C'' (Fin 4)
    (connectNodes ''B'' ''C'' (Fin 1)
    (connectNodes ''A'' ''B'' (Fin 1)
    (addNode ''C'' (addNode ''B'' (addNode ''A'' Network)))))"

section \<open>Observations on tables and networks\<close>

text \<open>
The cost a table records for a destination, a missing entry counting as infinity;
the cost and the entry node \<open>n\<close> holds for destination \<open>d\<close>; and the direct link
cost from \<open>n\<close> to \<open>m\<close>, as the neighbor map of \<open>n\<close> records it.
\<close>

definition tcost :: "(node_id, route) dict \<Rightarrow> node_id \<Rightarrow> cost" where
  "tcost t d = fst (get_route t d)"

definition rcost :: "network \<Rightarrow> node_id \<Rightarrow> node_id \<Rightarrow> cost" where
  "rcost net n d = (case map_of (nodes net) n of None \<Rightarrow> Inf | Some nd \<Rightarrow> tcost (routingTable nd) d)"

definition route_of :: "network \<Rightarrow> node_id \<Rightarrow> node_id \<Rightarrow> route option" where
  "route_of net n d = (case map_of (nodes net) n of None \<Rightarrow> None | Some nd \<Rightarrow> map_of (routingTable nd) d)"

definition link :: "network \<Rightarrow> node_id \<Rightarrow> node_id \<Rightarrow> cost option" where
  "link net n m = (case map_of (nodes net) n of None \<Rightarrow> None | Some nd \<Rightarrow> map_of (neighbors nd) m)"

text \<open>
The network after \<open>k\<close> calls of \<open>simulateIteration\<close>.
\<close>

fun rounds :: "nat \<Rightarrow> network \<Rightarrow> error + network" where
  "rounds 0 net = Inr net"
| "rounds (Suc k) net =
     (case simulateIteration net of Inl e \<Rightarrow> Inl e | Inr (updated, net') \<Rightarrow> rounds k net')"

text \<open>
What every state of the program satisfies: a dictionary has distinct keys, and every
node is stored under its own name (\<open>addNode\<close> stores \<open>Node(name)\<close> under \<open>name\<close>).
\<open>names_ok\<close> and \<open>tables_ok\<close> are the two parts the proofs use, stated on lookups.
\<close>

definition wf_network :: "network \<Rightarrow> bool" where
  "wf_network net =
     (distinct (keys (nodes net)) \<and>
      list_all (\<lambda>(k, nd). name nd = k \<and> distinct (keys (routingTable nd)) \<and>
                  distinct (keys (neighbors nd))) (nodes net))"

definition names_ok :: "network \<Rightarrow> bool" where
  "names_ok net = (\<forall>k nd. map_of (nodes net) k = Some nd \<longrightarrow> name nd = k)"

definition tables_ok :: "network \<Rightarrow> bool" where
  "tables_ok net = (\<forall>k nd. map_of (nodes net) k = Some nd \<longrightarrow> distinct (keys (routingTable nd)))"

text \<open>
\<open>node_le b a\<close>: node \<open>b\<close> is node \<open>a\<close> with some costs lowered; \<open>net_le\<close> is the same
relation on networks, key by key.
\<close>

definition node_le :: "node \<Rightarrow> node \<Rightarrow> bool" where
  "node_le b a = (name b = name a \<and> neighbors b = neighbors a \<and>
      (\<forall>d. tcost (routingTable b) d \<le> tcost (routingTable a) d))"

definition net_le :: "network \<Rightarrow> network \<Rightarrow> bool" where
  "net_le net' net = (keys (nodes net') = keys (nodes net) \<and>
     (\<forall>k. rel_option node_le (map_of (nodes net') k) (map_of (nodes net) k)))"

section \<open>The states of the script\<close>

text \<open>
The three states the script passes through: after the first loop, after
\<open>simulateFailure('A', 'B')\<close>, and after the second loop.
\<close>

definition driver_converged :: network where
  "driver_converged = \<lparr>nodes =
     [(''A'', \<lparr>name = ''A'',
              routingTable = [(''A'', (Fin 0, Some ''A'')), (''B'', (Fin 1, Some ''B'')), (''C'', (Fin 2, Some ''B''))],
              neighbors = [(''B'', Fin 1), (''C'', Fin 4)]\<rparr>),
      (''B'', \<lparr>name = ''B'',
              routingTable = [(''B'', (Fin 0, Some ''B'')), (''A'', (Fin 1, Some ''A'')), (''C'', (Fin 1, Some ''C''))],
              neighbors = [(''A'', Fin 1), (''C'', Fin 1)]\<rparr>),
      (''C'', \<lparr>name = ''C'',
              routingTable = [(''C'', (Fin 0, Some ''C'')), (''B'', (Fin 1, Some ''B'')), (''A'', (Fin 2, Some ''B''))],
              neighbors = [(''B'', Fin 1), (''A'', Fin 4)]\<rparr>)]\<rparr>"

definition driver_failed :: network where
  "driver_failed = \<lparr>nodes =
     [(''A'', \<lparr>name = ''A'',
              routingTable = [(''A'', (Fin 0, Some ''A'')), (''B'', (Inf, None)), (''C'', (Fin 2, Some ''B''))],
              neighbors = [(''B'', Inf), (''C'', Fin 4)]\<rparr>),
      (''B'', \<lparr>name = ''B'',
              routingTable = [(''B'', (Fin 0, Some ''B'')), (''A'', (Inf, None)), (''C'', (Fin 1, Some ''C''))],
              neighbors = [(''A'', Inf), (''C'', Fin 1)]\<rparr>),
      (''C'', \<lparr>name = ''C'',
              routingTable = [(''C'', (Fin 0, Some ''C'')), (''B'', (Fin 1, Some ''B'')), (''A'', (Fin 2, Some ''B''))],
              neighbors = [(''B'', Fin 1), (''A'', Fin 4)]\<rparr>)]\<rparr>"

definition driver_reconverged :: network where
  "driver_reconverged = \<lparr>nodes =
     [(''A'', \<lparr>name = ''A'',
              routingTable = [(''A'', (Fin 0, Some ''A'')), (''B'', (Fin 5, Some ''C'')), (''C'', (Fin 2, Some ''B''))],
              neighbors = [(''B'', Inf), (''C'', Fin 4)]\<rparr>),
      (''B'', \<lparr>name = ''B'',
              routingTable = [(''B'', (Fin 0, Some ''B'')), (''A'', (Fin 3, Some ''C'')), (''C'', (Fin 1, Some ''C''))],
              neighbors = [(''A'', Inf), (''C'', Fin 1)]\<rparr>),
      (''C'', \<lparr>name = ''C'',
              routingTable = [(''C'', (Fin 0, Some ''C'')), (''B'', (Fin 1, Some ''B'')), (''A'', (Fin 2, Some ''B''))],
              neighbors = [(''B'', Fin 1), (''A'', Fin 4)]\<rparr>)]\<rparr>"

section \<open>A reference round that reads a snapshot\<close>










section \<open>Paths and shortest distances\<close>

text \<open>
A path is the list of the nodes it visits. Its cost is the sum of the link costs along
it, infinite when a link is missing. A valid path is not empty, follows recorded links
and ends at a known node.
\<close>

fun path_cost :: "network \<Rightarrow> node_id list \<Rightarrow> cost" where
  "path_cost net (u # v # rest) =
     (case link net u v of None \<Rightarrow> Inf | Some c \<Rightarrow> c + path_cost net (v # rest))"
| "path_cost net p = 0"

fun valid_path :: "network \<Rightarrow> node_id list \<Rightarrow> bool" where
  "valid_path net [] = False"
| "valid_path net [v] = has_key (nodes net) v"
| "valid_path net (u # v # rest) = (link net u v \<noteq> None \<and> valid_path net (v # rest))"

definition is_path :: "network \<Rightarrow> node_id \<Rightarrow> node_id \<Rightarrow> node_id list \<Rightarrow> bool" where
  "is_path net a b p = (valid_path net p \<and> hd p = a \<and> last p = b)"

text \<open>
\<open>shortest net a b c\<close>: \<open>c\<close> is the cost of a path from \<open>a\<close> to \<open>b\<close> and no path from \<open>a\<close>
to \<open>b\<close> costs less. \<open>connected\<close>: every known node reaches every known node.
\<close>

definition shortest :: "network \<Rightarrow> node_id \<Rightarrow> node_id \<Rightarrow> cost \<Rightarrow> bool" where
  "shortest net a b c =
     ((\<exists>p. is_path net a b p \<and> path_cost net p = c) \<and>
      (\<forall>p. is_path net a b p \<longrightarrow> c \<le> path_cost net p))"

definition connected :: "network \<Rightarrow> bool" where
  "connected net =
     (\<forall>a b. has_key (nodes net) a \<and> has_key (nodes net) b \<longrightarrow> (\<exists>p. is_path net a b p))"

text \<open>
A topology as \<open>addNode\<close> and \<open>connectNodes\<close> leave it before any round and any
failure: every node is stored under its name, its links go to other known nodes and have
finite non-negative costs, and its table holds the self entry and, for every neighbor,
the direct entry, and nothing else.
\<close>

definition node_ok :: "network \<Rightarrow> node_id \<Rightarrow> node \<Rightarrow> bool" where
  "node_ok net k nd =
     (name nd = k \<and> distinct (keys (neighbors nd)) \<and> distinct (keys (routingTable nd)) \<and>
      map_of (routingTable nd) k = Some (Fin 0, Some k) \<and>
      list_all (\<lambda>(m, c). m \<noteq> k \<and> has_key (nodes net) m \<and> Fin 0 \<le> c \<and> c \<noteq> Inf \<and>
                  map_of (routingTable nd) m = Some (c, Some m)) (neighbors nd) \<and>
      list_all (\<lambda>(d, e). d = k \<or> has_key (neighbors nd) d) (routingTable nd))"

definition topology_ok :: "network \<Rightarrow> bool" where
  "topology_ok net =
     (distinct (keys (nodes net)) \<and> list_all (\<lambda>(k, nd). node_ok net k nd) (nodes net))"

text \<open>
The invariants of the convergence proof: link costs are not negative; every recorded
finite cost is the cost of a path; a node's cost to itself is at most 0; every cost is at
most the cost of every path of at most \<open>k + 1\<close> links (\<open>within k\<close>), of every path
(\<open>settled\<close>).
\<close>

definition links_nonneg :: "network \<Rightarrow> bool" where
  "links_nonneg net = (\<forall>n m c. link net n m = Some c \<longrightarrow> (\<exists>w. 0 \<le> w \<and> c = Fin w))"

definition realizable :: "network \<Rightarrow> bool" where
  "realizable net = (\<forall>a b. rcost net a b = Inf \<or>
      (\<exists>p. is_path net a b p \<and> path_cost net p = rcost net a b))"

definition selfzero :: "network \<Rightarrow> bool" where
  "selfzero net = (\<forall>n. has_key (nodes net) n \<longrightarrow> rcost net n n \<le> 0)"

definition within :: "nat \<Rightarrow> network \<Rightarrow> bool" where
  "within k net = (\<forall>a b p. is_path net a b p \<and> length p \<le> k + 2 \<longrightarrow> rcost net a b \<le> path_cost net p)"

definition settled :: "network \<Rightarrow> bool" where
  "settled net = (\<forall>a b p. is_path net a b p \<longrightarrow> rcost net a b \<le> path_cost net p)"

text \<open>
The network with one node and no link.
\<close>

definition single_node :: network where
  "single_node = addNode ''A'' Network"

section \<open>Reachable states\<close>

text \<open>
The states the program can be in: those reached from the empty network by the
methods of \<open>Network\<close> and by \<open>disconnectNeighbor\<close> on one of its nodes.
\<open>reachable_plain\<close> leaves out the calls of \<open>connectNodes\<close> with both ids equal, and
\<open>built\<close> keeps only the construction of a topology: \<open>addNode\<close>, and \<open>connectNodes\<close>
with two different ids and a finite non-negative cost.
\<close>

inductive reachable :: "network \<Rightarrow> bool" where
  reach_init: "reachable Network"
| reach_addNode: "reachable net \<Longrightarrow> reachable (addNode n net)"
| reach_connectNodes: "reachable net \<Longrightarrow> reachable (connectNodes a b c net)"
| reach_simulateIteration:
    "reachable net \<Longrightarrow> simulateIteration net = Inr (u, net') \<Longrightarrow> reachable net'"
| reach_disconnectNeighbor:
    "reachable net \<Longrightarrow> reachable (on_node n (\<lambda>nd. disconnectNeighbor nd m) net)"
| reach_simulateFailure:
    "reachable net \<Longrightarrow> simulateFailure a b net = Inr (out, net') \<Longrightarrow> reachable net'"

inductive reachable_plain :: "network \<Rightarrow> bool" where
  plain_init: "reachable_plain Network"
| plain_addNode: "reachable_plain net \<Longrightarrow> reachable_plain (addNode n net)"
| plain_connectNodes: "reachable_plain net \<Longrightarrow> a \<noteq> b \<Longrightarrow> reachable_plain (connectNodes a b c net)"
| plain_simulateIteration:
    "reachable_plain net \<Longrightarrow> simulateIteration net = Inr (u, net') \<Longrightarrow> reachable_plain net'"
| plain_disconnectNeighbor:
    "reachable_plain net \<Longrightarrow> reachable_plain (on_node n (\<lambda>nd. disconnectNeighbor nd m) net)"
| plain_simulateFailure:
    "reachable_plain net \<Longrightarrow> simulateFailure a b net = Inr (out, net') \<Longrightarrow> reachable_plain net'"

inductive built :: "network \<Rightarrow> bool" where
  built_init: "built Network"
| built_addNode: "built net \<Longrightarrow> built (addNode n net)"
| built_connectNodes: "built net \<Longrightarrow> a \<noteq> b \<Longrightarrow> 0 \<le> w \<Longrightarrow> built (connectNodes a b (Fin w) net)"

text \<open>
Properties of one node: its dictionaries have distinct keys; it holds the entry
(0, own name) for itself and is not its own neighbor. \<open>all_nodes Q\<close>: every node is
stored under its name and satisfies \<open>Q\<close>.
\<close>

definition node_wf :: "node \<Rightarrow> bool" where
  "node_wf nd = (distinct (keys (routingTable nd)) \<and> distinct (keys (neighbors nd)))"

definition self_route :: "node \<Rightarrow> bool" where
  "self_route nd = (map_of (routingTable nd) (name nd) = Some (Fin 0, Some (name nd)) \<and>
     \<not> has_key (neighbors nd) (name nd))"

definition all_nodes :: "(node \<Rightarrow> bool) \<Rightarrow> network \<Rightarrow> bool" where
  "all_nodes Q net = (\<forall>k nd. map_of (nodes net) k = Some nd \<longrightarrow> name nd = k \<and> Q nd)"

section \<open>Cost arithmetic\<close>

lemma cost_plus_Inf_right [simp]: "c + Inf = Inf"
  by (cases c) simp_all

lemma cost_add_left_mono: "(a::cost) \<le> b \<Longrightarrow> c + a \<le> c + b"
  by (cases a; cases b; cases c) simp_all

lemma cost_add_assoc: "((a::cost) + b) + c = a + (b + c)"
  by (cases a; cases b; cases c) simp_all

lemma cost_zero_add [simp]: "0 + (a::cost) = a"
  by (cases a) (simp_all add: zero_cost_def)

lemma cost_add_zero [simp]: "(a::cost) + 0 = a"
  by (cases a) (simp_all add: zero_cost_def)

section \<open>The loop of updateRoutingTable\<close>

lemma tcost_update: "tcost (AList.update k (c, h) t) d = (if d = k then c else tcost t d)"
  by (simp add: tcost_def get_route_def update_conv')

text \<open>
With the neighbor in the neighbor map the loop never raises; it changes neither the
name nor the neighbor map; it never raises a cost; and once it has run, the cost of
every advertised destination other than the node itself is at most link cost plus
advertised cost.
\<close>

lemma url_total:
  "map_of (neighbors self) m \<noteq> None \<Longrightarrow> \<exists>r. updateRoutingTable_loop self m nt upd = Inr r"
proof (induction nt arbitrary: self upd)
  case Nil
  then show ?case by simp
next
  case (Cons e nt)
  obtain d nc h where e: "e = (d, (nc, h))" by (cases e) auto
  from Cons.prems obtain c where c: "map_of (neighbors self) m = Some c" by auto
  show ?case
    using Cons.IH[of self upd] Cons.IH[of "self\<lparr>routingTable := AList.update d (c + nc, Some m) (routingTable self)\<rparr>" True]
      Cons.prems
    by (simp add: e c Let_def)
qed

lemma url_frame:
  "updateRoutingTable_loop self m nt upd = Inr (u, s') \<Longrightarrow>
     name s' = name self \<and> neighbors s' = neighbors self"
proof (induction nt arbitrary: self upd)
  case Nil
  then show ?case by simp
next
  case (Cons e nt)
  obtain d nc h where e: "e = (d, (nc, h))" by (cases e) auto
  show ?case
    using Cons.prems Cons.IH
    by (auto simp: e Let_def split: if_splits option.splits)
qed

lemma url_mono:
  "updateRoutingTable_loop self m nt upd = Inr (u, s') \<Longrightarrow>
     tcost (routingTable s') d \<le> tcost (routingTable self) d"
proof (induction nt arbitrary: self upd)
  case Nil
  then show ?case by simp
next
  case (Cons e nt)
  obtain d0 nc h where e: "e = (d0, (nc, h))" by (cases e) auto
  show ?case
  proof (cases "d0 = name self")
    case True
    then show ?thesis using Cons.prems Cons.IH by (simp add: e)
  next
    case False
    then obtain c where c: "map_of (neighbors self) m = Some c"
      using Cons.prems by (auto simp: e Let_def split: option.splits)
    show ?thesis
    proof (cases "c + nc < tcost (routingTable self) d0")
      case True
      let ?s = "self\<lparr>routingTable := AList.update d0 (c + nc, Some m) (routingTable self)\<rparr>"
      have "updateRoutingTable_loop ?s m nt True = Inr (u, s')"
        using Cons.prems False c True by (simp add: e Let_def tcost_def)
      from Cons.IH[OF this] have "tcost (routingTable s') d \<le> tcost (routingTable ?s) d" .
      also have "\<dots> \<le> tcost (routingTable self) d"
        using True by (auto simp: tcost_update)
      finally show ?thesis .
    next
      case nless: False
      have "updateRoutingTable_loop self m nt upd = Inr (u, s')"
        using Cons.prems False c nless by (simp add: e Let_def tcost_def)
      from Cons.IH[OF this] show ?thesis .
    qed
  qed
qed

lemma url_flag:
  "updateRoutingTable_loop self m nt upd = Inr (u, s') \<Longrightarrow>
     (upd \<longrightarrow> u) \<and> (\<not> u \<longrightarrow> s' = self)"
proof (induction nt arbitrary: self upd)
  case Nil
  then show ?case by simp
next
  case (Cons e nt)
  obtain d nc h where e: "e = (d, (nc, h))" by (cases e) auto
  show ?case
    using Cons.prems Cons.IH
    by (fastforce simp: e Let_def split: if_splits option.splits)
qed

lemma url_bound:
  "updateRoutingTable_loop self m nt upd = Inr (u, s') \<Longrightarrow>
   map_of (neighbors self) m = Some c \<Longrightarrow> (d, (nc, h)) \<in> set nt \<Longrightarrow> d \<noteq> name self \<Longrightarrow>
     tcost (routingTable s') d \<le> c + nc"
proof (induction nt arbitrary: self upd)
  case Nil
  then show ?case by simp
next
  case (Cons e nt)
  obtain d0 nc0 h0 where e: "e = (d0, (nc0, h0))" by (cases e) auto
  show ?case
  proof (cases "d0 = name self")
    case True
    then show ?thesis using Cons.prems Cons.IH[of self upd] by (auto simp: e)
  next
    case False
    let ?s = "self\<lparr>routingTable := AList.update d0 (c + nc0, Some m) (routingTable self)\<rparr>"
    show ?thesis
    proof (cases "c + nc0 < tcost (routingTable self) d0")
      case True
      have run: "updateRoutingTable_loop ?s m nt True = Inr (u, s')"
        using Cons.prems False True by (simp add: e Let_def tcost_def)
      show ?thesis
      proof (cases "(d, (nc, h)) = e")
        case True
        have "tcost (routingTable s') d \<le> tcost (routingTable ?s) d"
          using url_mono[OF run] .
        then show ?thesis using True by (simp add: e tcost_update)
      next
        case False
        then have "(d, (nc, h)) \<in> set nt" using Cons.prems by auto
        then show ?thesis using Cons.IH[OF run] Cons.prems by simp
      qed
    next
      case nless: False
      have run: "updateRoutingTable_loop self m nt upd = Inr (u, s')"
        using Cons.prems False nless by (simp add: e Let_def tcost_def)
      show ?thesis
      proof (cases "(d, (nc, h)) = e")
        case True
        have "tcost (routingTable s') d \<le> tcost (routingTable self) d"
          using url_mono[OF run] .
        then show ?thesis using True nless by (simp add: e)
      next
        case False
        then have "(d, (nc, h)) \<in> set nt" using Cons.prems by auto
        then show ?thesis using Cons.IH[OF run] Cons.prems by simp
      qed
    qed
  qed
qed

lemma node_le_refl: "node_le a a"
  by (simp add: node_le_def)

lemma node_le_trans: "node_le c b \<Longrightarrow> node_le b a \<Longrightarrow> node_le c a"
  unfolding node_le_def by (metis order_trans)

section \<open>The loops of simulateIteration\<close>

lemma net_le_refl: "net_le net net"
  by (simp add: net_le_def option.rel_refl node_le_refl)

lemma net_le_trans: "net_le n3 n2 \<Longrightarrow> net_le n2 n1 \<Longrightarrow> net_le n3 n1"
proof -
  assume a: "net_le n3 n2" and b: "net_le n2 n1"
  have "rel_option node_le (map_of (nodes n3) k) (map_of (nodes n1) k)" for k
  proof -
    have 1: "rel_option node_le (map_of (nodes n3) k) (map_of (nodes n2) k)"
      using a by (simp add: net_le_def)
    have 2: "rel_option node_le (map_of (nodes n2) k) (map_of (nodes n1) k)"
      using b by (simp add: net_le_def)
    show ?thesis
      using 1 2 by (auto simp: option_rel_Some1 option_rel_Some2 elim!: option.rel_cases intro: node_le_trans)
  qed
  then show ?thesis using a b by (simp add: net_le_def)
qed

lemma keys_update_present:
  "map_of al k = Some v \<Longrightarrow> keys (AList.update k w al) = keys al"
  by (induction al) (auto simp: keys_def)

lemma net_le_update:
  assumes "map_of (nodes net) n = Some nv" and "node_le nv' nv"
  shows "net_le (net\<lparr>nodes := AList.update n nv' (nodes net)\<rparr>) net"
  using assms
  by (auto simp: net_le_def keys_update_present update_conv' option.rel_refl node_le_refl)

lemma url_node_le:
  "updateRoutingTable_loop self m nt upd = Inr (u, s') \<Longrightarrow> node_le s' self"
  using url_frame url_mono by (simp add: node_le_def)

lemma url_bound':
  assumes "updateRoutingTable_loop self m nt upd = Inr (u, s')"
    and "map_of (neighbors self) m = Some c" and "d \<noteq> name self"
  shows "tcost (routingTable s') d \<le> c + tcost nt d"
proof (cases "map_of nt d")
  case None
  then show ?thesis by (simp add: tcost_def get_route_def)
next
  case (Some e)
  obtain nc h where e: "e = (nc, h)" by (cases e) auto
  have "(d, (nc, h)) \<in> set nt" using Some e by (simp add: map_of_SomeD)
  from url_bound[OF assms(1,2) this assms(3)] show ?thesis
    using Some e by (simp add: tcost_def get_route_def)
qed

lemma map_of_keys_mem: "m \<in> set (keys al) \<Longrightarrow> map_of al m \<noteq> None"
  by (induction al) (auto simp: keys_def)

lemma nl_total:
  "set ms \<subseteq> set (keys (neighbors nv)) \<Longrightarrow>
     \<exists>r. neighbors_loop n nv ms net upd = Inr r"
proof (induction ms arbitrary: nv net upd)
  case Nil
  then show ?case by simp
next
  case (Cons m ms)
  show ?case
  proof (cases "map_of (nodes net) m")
    case None
    then show ?thesis using Cons by simp
  next
    case (Some mv)
    have "map_of (neighbors nv) m \<noteq> None"
      using Cons.prems by (simp add: map_of_keys_mem)
    from url_total[OF this] obtain u nv' where
      r: "updateRoutingTable_loop nv m (shareTable mv) False = Inr (u, nv')"
      by fastforce
    have "neighbors nv' = neighbors nv" using url_frame[OF r] by simp
    then have "set ms \<subseteq> set (keys (neighbors nv'))" using Cons.prems by simp
    from Cons.IH[OF this] show ?thesis
      using Some r by (simp add: updateRoutingTable_def)
  qed
qed

lemma nl_result:
  "neighbors_loop n nv ms net upd = Inr (u, net') \<Longrightarrow> map_of (nodes net) n = Some nv \<Longrightarrow>
     \<exists>nv'. nodes net' = AList.update n nv' (nodes net) \<and> node_le nv' nv \<and>
       (upd \<longrightarrow> u) \<and> (\<not> u \<longrightarrow> nv' = nv)"
proof (induction ms arbitrary: nv net upd)
  case Nil
  then show ?case by (intro exI[of _ nv]) (auto simp: node_le_refl update_triv)
next
  case (Cons m ms)
  show ?case
  proof (cases "map_of (nodes net) m")
    case None
    then show ?thesis using Cons by simp
  next
    case (Some mv)
    from Cons.prems(1) Some obtain u1 nv1 where
      r: "updateRoutingTable_loop nv m (shareTable mv) False = Inr (u1, nv1)"
      by (auto simp: updateRoutingTable_def split: sum.splits)
    let ?net1 = "net\<lparr>nodes := AList.update n nv1 (nodes net)\<rparr>"
    have run: "neighbors_loop n nv1 ms ?net1 (upd \<or> u1) = Inr (u, net')"
      using Cons.prems(1) Some r by (simp add: updateRoutingTable_def)
    have cur: "map_of (nodes ?net1) n = Some nv1" by (simp add: update_conv')
    from Cons.IH[OF run cur] obtain nv' where
      nv': "nodes net' = AList.update n nv' (nodes ?net1)" "node_le nv' nv1"
        "(upd \<or> u1) \<longrightarrow> u" "\<not> u \<longrightarrow> nv' = nv1"
      by auto
    have "nodes net' = AList.update n nv' (nodes net)"
      using nv'(1) by (simp add: update_last)
    moreover have "node_le nv' nv"
      using nv'(2) url_node_le[OF r] by (rule node_le_trans)
    moreover have "upd \<longrightarrow> u" using nv'(3) by simp
    moreover have "\<not> u \<longrightarrow> nv' = nv"
      using nv'(3,4) url_flag[OF r] by auto
    ultimately show ?thesis by blast
  qed
qed

lemma net_le_rcost: "net_le net' net \<Longrightarrow> rcost net' n d \<le> rcost net n d"
proof -
  assume "net_le net' net"
  then have "rel_option node_le (map_of (nodes net') n) (map_of (nodes net) n)"
    by (simp add: net_le_def)
  then show ?thesis
    by (cases rule: option.rel_cases) (auto simp: rcost_def node_le_def)
qed

lemma net_le_link: "net_le net' net \<Longrightarrow> link net' n m = link net n m"
proof -
  assume "net_le net' net"
  then have "rel_option node_le (map_of (nodes net') n) (map_of (nodes net) n)"
    by (simp add: net_le_def)
  then show ?thesis
    by (cases rule: option.rel_cases) (auto simp: link_def node_le_def)
qed

lemma net_le_known: "net_le net' net \<Longrightarrow> (map_of (nodes net') n = None) = (map_of (nodes net) n = None)"
proof -
  assume "net_le net' net"
  then have "rel_option node_le (map_of (nodes net') n) (map_of (nodes net) n)"
    by (simp add: net_le_def)
  then show ?thesis
    by (cases rule: option.rel_cases) auto
qed

lemma net_le_names_ok: "net_le net' net \<Longrightarrow> names_ok net \<Longrightarrow> names_ok net'"
  unfolding names_ok_def
proof (intro allI impI)
  fix k nd
  assume le: "net_le net' net" and ok: "\<forall>k nd. map_of (nodes net) k = Some nd \<longrightarrow> name nd = k"
    and s: "map_of (nodes net') k = Some nd"
  from le have "rel_option node_le (map_of (nodes net') k) (map_of (nodes net) k)"
    by (simp add: net_le_def)
  then show "name nd = k"
    using s ok by (cases rule: option.rel_cases) (auto simp: node_le_def)
qed

lemma network_eqI: "nodes (a::network) = nodes b \<Longrightarrow> a = b"
  by (cases a; cases b) simp

text \<open>
One pass over the neighbors of a node only lowers costs of that node, reports a change
when there was one before, and leaves the network as it was when it reports none.
\<close>

lemma nl_net_le:
  assumes "neighbors_loop n nv ms net upd = Inr (u, net')" and "map_of (nodes net) n = Some nv"
  shows "net_le net' net \<and> (upd \<longrightarrow> u) \<and> (\<not> u \<longrightarrow> net' = net)"
proof -
  from nl_result[OF assms] obtain nv' where
    nv': "nodes net' = AList.update n nv' (nodes net)" "node_le nv' nv" "upd \<longrightarrow> u" "\<not> u \<longrightarrow> nv' = nv"
    by blast
  have "net' = net\<lparr>nodes := AList.update n nv' (nodes net)\<rparr>"
    using nv'(1) by (intro network_eqI) simp
  then have "net_le net' net"
    using net_le_update[OF assms(2) nv'(2)] by simp
  moreover have "\<not> u \<longrightarrow> net' = net"
    using nv'(1,4) assms(2) by (auto intro!: network_eqI simp: update_triv)
  ultimately show ?thesis using nv'(3) by simp
qed

lemma nl_bound:
  "neighbors_loop n nv ms net upd = Inr (u, net') \<Longrightarrow> map_of (nodes net) n = Some nv \<Longrightarrow>
   m \<in> set ms \<Longrightarrow> map_of (nodes net) m \<noteq> None \<Longrightarrow> map_of (neighbors nv) m = Some c \<Longrightarrow>
   d \<noteq> name nv \<Longrightarrow> rcost net m d \<le> x \<Longrightarrow>
     rcost net' n d \<le> c + x"
proof (induction ms arbitrary: nv net upd)
  case Nil
  then show ?case by simp
next
  case (Cons m0 ms)
  show ?case
  proof (cases "map_of (nodes net) m0")
    case None
    then have "m \<in> set ms" using Cons.prems by auto
    moreover have "neighbors_loop n nv ms net upd = Inr (u, net')"
      using Cons.prems(1) None by simp
    ultimately show ?thesis using Cons.IH Cons.prems by blast
  next
    case (Some mv0)
    from Cons.prems(1) Some obtain u1 nv1 where
      r: "updateRoutingTable_loop nv m0 (shareTable mv0) False = Inr (u1, nv1)"
      by (auto simp: updateRoutingTable_def split: sum.splits)
    let ?net1 = "net\<lparr>nodes := AList.update n nv1 (nodes net)\<rparr>"
    have run: "neighbors_loop n nv1 ms ?net1 (upd \<or> u1) = Inr (u, net')"
      using Cons.prems(1) Some r by (simp add: updateRoutingTable_def)
    have cur: "map_of (nodes ?net1) n = Some nv1" by (simp add: update_conv')
    have le1: "node_le nv1 nv" using url_node_le[OF r] .
    have netle1: "net_le ?net1 net" using net_le_update[OF Cons.prems(2) le1] .
    show ?thesis
    proof (cases "m = m0")
      case True
      have "tcost (routingTable nv1) d \<le> c + tcost (routingTable mv0) d"
        using url_bound'[OF r] Cons.prems True by (simp add: shareTable_def)
      also have "\<dots> \<le> c + x"
        using Cons.prems(7) True Some by (intro cost_add_left_mono) (simp add: rcost_def)
      finally have "rcost ?net1 n d \<le> c + x" by (simp add: rcost_def update_conv')
      moreover have "rcost net' n d \<le> rcost ?net1 n d"
        using nl_net_le[OF run cur] net_le_rcost by blast
      ultimately show ?thesis by (rule order_trans[rotated])
    next
      case False
      then have mem: "m \<in> set ms" using Cons.prems by auto
      have known: "map_of (nodes ?net1) m \<noteq> None"
        using Cons.prems(4) by (simp add: update_conv')
      have lk: "map_of (neighbors nv1) m = Some c"
        using le1 Cons.prems(5) by (simp add: node_le_def)
      have nm: "d \<noteq> name nv1" using le1 Cons.prems(6) by (simp add: node_le_def)
      have "rcost ?net1 m d \<le> rcost net m d" using netle1 by (rule net_le_rcost)
      then have bx: "rcost ?net1 m d \<le> x" using Cons.prems(7) by (rule order_trans)
      from Cons.IH[OF run cur mem known lk nm bx] show ?thesis .
    qed
  qed
qed

lemma ndl_total: "\<exists>r. nodes_loop ns net upd = Inr r"
proof (induction ns arbitrary: net upd)
  case Nil
  then show ?case by simp
next
  case (Cons n ns)
  show ?case
  proof (cases "map_of (nodes net) n")
    case None
    then show ?thesis using Cons.IH by simp
  next
    case (Some nv)
    from nl_total[of "keys (neighbors nv)" nv n net upd] obtain u1 net1 where
      "neighbors_loop n nv (keys (neighbors nv)) net upd = Inr (u1, net1)" by fastforce
    then show ?thesis using Some Cons.IH[of net1 u1] by simp
  qed
qed

lemma ndl_net_le:
  "nodes_loop ns net upd = Inr (u, net') \<Longrightarrow>
     net_le net' net \<and> (upd \<longrightarrow> u) \<and> (\<not> u \<longrightarrow> net' = net)"
proof (induction ns arbitrary: net upd)
  case Nil
  then show ?case by (auto simp: net_le_refl)
next
  case (Cons n ns)
  show ?case
  proof (cases "map_of (nodes net) n")
    case None
    then have "nodes_loop ns net upd = Inr (u, net')" using Cons.prems by simp
    from Cons.IH[OF this] show ?thesis .
  next
    case (Some nv)
    from Cons.prems Some obtain u1 net1 where
      r: "neighbors_loop n nv (keys (neighbors nv)) net upd = Inr (u1, net1)"
      and run: "nodes_loop ns net1 u1 = Inr (u, net')"
      by (auto split: sum.splits)
    from nl_net_le[OF r Some] Cons.IH[OF run] show ?thesis
      by (auto intro: net_le_trans)
  qed
qed

text \<open>
After the loop over the nodes, the cost node \<open>n\<close> records for \<open>d\<close> is at most the cost
of its link to any known neighbor \<open>m\<close> plus any bound on what \<open>m\<close> recorded for \<open>d\<close>
before the loop: tables read later in the round are only lower.
\<close>

lemma ndl_bound:
  "nodes_loop ns net upd = Inr (u, net') \<Longrightarrow> names_ok net \<Longrightarrow> n \<in> set ns \<Longrightarrow>
   link net n m = Some c \<Longrightarrow> map_of (nodes net) m \<noteq> None \<Longrightarrow> d \<noteq> n \<Longrightarrow> rcost net m d \<le> x \<Longrightarrow>
     rcost net' n d \<le> c + x"
proof (induction ns arbitrary: net upd)
  case Nil
  then show ?case by simp
next
  case (Cons n0 ns)
  show ?case
  proof (cases "map_of (nodes net) n0")
    case None
    then have "n \<noteq> n0" using Cons.prems(4) by (auto simp: link_def)
    then have "n \<in> set ns" using Cons.prems by auto
    moreover have "nodes_loop ns net upd = Inr (u, net')"
      using Cons.prems(1) None by simp
    ultimately show ?thesis using Cons.IH Cons.prems by blast
  next
    case (Some nv0)
    from Cons.prems(1) Some obtain u1 net1 where
      r: "neighbors_loop n0 nv0 (keys (neighbors nv0)) net upd = Inr (u1, net1)"
      and run: "nodes_loop ns net1 u1 = Inr (u, net')"
      by (auto split: sum.splits)
    have le1: "net_le net1 net" using nl_net_le[OF r Some] by simp
    show ?thesis
    proof (cases "n = n0")
      case True
      have lk: "map_of (neighbors nv0) m = Some c"
        using Cons.prems(4) True Some by (simp add: link_def)
      then have mem: "m \<in> set (keys (neighbors nv0))"
        by (auto simp: keys_def dest: map_of_SomeD intro: rev_image_eqI)
      have nm: "d \<noteq> name nv0"
        using Cons.prems(2,6) True Some by (auto simp: names_ok_def)
      have "rcost net1 n0 d \<le> c + x"
        using nl_bound[OF r Some mem Cons.prems(5) lk nm Cons.prems(7)] .
      moreover have "rcost net' n0 d \<le> rcost net1 n0 d"
        using ndl_net_le[OF run] net_le_rcost by blast
      ultimately show ?thesis using True by (auto intro: order_trans)
    next
      case False
      then have mem: "n \<in> set ns" using Cons.prems by auto
      have ok1: "names_ok net1" using le1 Cons.prems(2) by (rule net_le_names_ok)
      have lk1: "link net1 n m = Some c" using net_le_link[OF le1] Cons.prems(4) by simp
      have kn1: "map_of (nodes net1) m \<noteq> None" using net_le_known[OF le1] Cons.prems(5) by simp
      have "rcost net1 m d \<le> rcost net m d" using le1 by (rule net_le_rcost)
      then have bx: "rcost net1 m d \<le> x" using Cons.prems(7) by (rule order_trans)
      from Cons.IH[OF run ok1 mem lk1 kn1 Cons.prems(6) bx] show ?thesis .
    qed
  qed
qed





text \<open>
A round never raises: every neighbor name the inner loop passes to
\<open>updateRoutingTable\<close> is a key of the neighbor map.
\<close>

lemma si_total: "\<exists>u net'. simulateIteration net = Inr (u, net')"
  using ndl_total[of "keys (nodes net)" net False] by (auto simp: simulateIteration_def)

lemma si_net_le:
  "simulateIteration net = Inr (u, net') \<Longrightarrow> net_le net' net \<and> (\<not> u \<longrightarrow> net' = net)"
  using ndl_net_le[of "keys (nodes net)" net False u net'] by (simp add: simulateIteration_def)


lemma rounds_total: "\<exists>netk. rounds k net = Inr netk"
proof (induction k arbitrary: net)
  case 0
  then show ?case by simp
next
  case (Suc k)
  from si_total[of net] obtain u net1 where "simulateIteration net = Inr (u, net1)" by blast
  then show ?case using Suc[of net1] by simp
qed



text \<open>
Claim C9. If a call of \<open>simulateIteration\<close> returns false, the network is unchanged
by it, any number of further calls leaves it unchanged, and the next call returns false
again.
\<close>

theorem fixpoint_idempotent:
  assumes "simulateIteration net = Inr (False, net')"
  shows "net' = net \<and> (\<forall>k. rounds k net' = Inr net') \<and> simulateIteration net' = Inr (False, net')"
proof -
  have eq: "net' = net" using si_net_le[OF assms] by simp
  have "rounds k net = Inr net" for k
    by (induction k) (use assms eq in auto)
  then show ?thesis using eq assms by simp
qed

theorem fixpoint_idempotent_witness:
  "simulateIteration driver_converged = Inr (False, driver_converged) \<and>
   rounds 7 driver_converged = Inr driver_converged"
proof -
  have h: "simulateIteration driver_converged = Inr (False, driver_converged)" by code_simp
  from fixpoint_idempotent[OF h] show ?thesis by simp
qed

lemma driver_run1: "driver_loop 100 driver_network = Inr (2, True, driver_converged)"
  by code_simp

lemma driver_fail: "simulateFailure ''A'' ''B'' driver_converged = Inr ([], driver_failed)"
  by code_simp

lemma driver_run2: "driver_loop 100 driver_failed = Inr (2, True, driver_reconverged)"
  by code_simp

lemma conv_fix: "simulateIteration driver_converged = Inr (False, driver_converged)"
  by code_simp

section \<open>Failure injection and link set-up\<close>

lemma has_key_iff: "has_key d k = (\<exists>v. map_of d k = Some v)"
  by (simp add: has_key_def)

lemma on_node_nodes:
  "map_of (nodes net) k = Some nd \<Longrightarrow>
     map_of (nodes (on_node k f net)) = (map_of (nodes net))(k \<mapsto> f nd)"
  by (simp add: on_node_def update_conv')

lemma on_node_keys: "keys (nodes (on_node k f net)) = keys (nodes net)"
  by (auto simp: on_node_def keys_update_present split: option.splits)

lemma on_node_has_key: "has_key (nodes (on_node k f net)) x = has_key (nodes net) x"
  by (cases "map_of (nodes net) k") (simp_all add: on_node_def has_key_def update_conv')

text \<open>
Claim C7, amended. For a neighbor id present in the neighbor map,
\<open>disconnectNeighbor\<close> sets its link cost to infinity and its routing entry to
(infinity, no next hop) and changes nothing else: every routing entry for another
destination, also one whose next hop is the disconnected neighbor, stays as it was.
For an id that is not in the neighbor map the node is left unchanged.
\<close>

theorem disconnectNeighbor_effect:
  "(if has_key (neighbors self) neighborId
    then map_of (neighbors (disconnectNeighbor self neighborId)) = (map_of (neighbors self))(neighborId \<mapsto> Inf) \<and>
         map_of (routingTable (disconnectNeighbor self neighborId)) =
           (map_of (routingTable self))(neighborId \<mapsto> (Inf, None)) \<and>
         name (disconnectNeighbor self neighborId) = name self
    else disconnectNeighbor self neighborId = self)"
  by (simp add: disconnectNeighbor_def update_conv')

theorem disconnectNeighbor_effect_witness:
  "has_key (neighbors \<lparr>name = ''A'',
       routingTable = [(''A'', (Fin 0, Some ''A'')), (''B'', (Fin 1, Some ''B'')), (''C'', (Fin 2, Some ''B''))],
       neighbors = [(''B'', Fin 1), (''C'', Fin 4)]\<rparr>) ''B'' \<and>
   map_of (neighbors (disconnectNeighbor \<lparr>name = ''A'',
       routingTable = [(''A'', (Fin 0, Some ''A'')), (''B'', (Fin 1, Some ''B'')), (''C'', (Fin 2, Some ''B''))],
       neighbors = [(''B'', Fin 1), (''C'', Fin 4)]\<rparr> ''B'')) ''B'' = Some Inf \<and>
   map_of (routingTable (disconnectNeighbor \<lparr>name = ''A'',
       routingTable = [(''A'', (Fin 0, Some ''A'')), (''B'', (Fin 1, Some ''B'')), (''C'', (Fin 2, Some ''B''))],
       neighbors = [(''B'', Fin 1), (''C'', Fin 4)]\<rparr> ''B'')) ''B'' = Some (Inf, None) \<and>
   map_of (routingTable (disconnectNeighbor \<lparr>name = ''A'',
       routingTable = [(''A'', (Fin 0, Some ''A'')), (''B'', (Fin 1, Some ''B'')), (''C'', (Fin 2, Some ''B''))],
       neighbors = [(''B'', Fin 1), (''C'', Fin 4)]\<rparr> ''B'')) ''C'' = Some (Fin 2, Some ''B'')"
proof -
  let ?a = "\<lparr>name = ''A'',
       routingTable = [(''A'', (Fin 0, Some ''A'')), (''B'', (Fin 1, Some ''B'')), (''C'', (Fin 2, Some ''B''))],
       neighbors = [(''B'', Fin 1), (''C'', Fin 4)]\<rparr>"
  have h: "has_key (neighbors ?a) ''B''" by (simp add: has_key_def)
  have "map_of (neighbors (disconnectNeighbor ?a ''B'')) = (map_of (neighbors ?a))(''B'' \<mapsto> Inf) \<and>
        map_of (routingTable (disconnectNeighbor ?a ''B'')) = (map_of (routingTable ?a))(''B'' \<mapsto> (Inf, None))"
    using disconnectNeighbor_effect[of ?a "''B''"] h by simp
  then show ?thesis using h by simp
qed

text \<open>
The claim as stated fails for an id that is not a neighbor: the guard
\<open>if neighborName in self.neighbors\<close> skips both assignments.
\<close>

theorem disconnectNeighbor_unknown_counterexample:
  "map_of (neighbors (disconnectNeighbor (Node ''A'') ''B'')) ''B'' = None \<and>
   map_of (routingTable (disconnectNeighbor (Node ''A'') ''B'')) ''B'' = None"
  by (simp add: disconnectNeighbor_def Node_def has_key_def)

text \<open>
Claim C6, amended. When either id is unknown, \<open>simulateFailure\<close> prints one line,
returns normally (no error reaches the caller) and leaves the network unchanged. When
both exist it prints nothing and applies \<open>disconnectNeighbor\<close> to the first node for
the second id and then to the second node for the first id; every other node is
unchanged, so no convergence round is run.
\<close>

theorem simulateFailure_effect:
  "(\<not> has_key (nodes net) a \<or> \<not> has_key (nodes net) b \<longrightarrow>
      simulateFailure a b net =
        Inr ([''Errore: '' @ a @ '' o '' @ b @ '' non esiste nella rete.''], net)) \<and>
   (\<forall>na nb. map_of (nodes net) a = Some na \<and> map_of (nodes net) b = Some nb \<longrightarrow>
      (\<exists>net'. simulateFailure a b net = Inr ([], net') \<and>
         keys (nodes net') = keys (nodes net) \<and>
         map_of (nodes net') =
           (map_of (nodes net))
             (a \<mapsto> disconnectNeighbor na b,
              b \<mapsto> disconnectNeighbor (if a = b then disconnectNeighbor na b else nb) a)))"
proof (intro conjI impI allI)
  assume "\<not> has_key (nodes net) a \<or> \<not> has_key (nodes net) b"
  then show "simulateFailure a b net =
        Inr ([''Errore: '' @ a @ '' o '' @ b @ '' non esiste nella rete.''], net)"
    by (auto simp: simulateFailure_def)
next
  fix na nb
  assume h: "map_of (nodes net) a = Some na \<and> map_of (nodes net) b = Some nb"
  let ?net1 = "on_node a (\<lambda>nd. disconnectNeighbor nd b) net"
  let ?net2 = "on_node b (\<lambda>nd. disconnectNeighbor nd a) ?net1"
  have 1: "map_of (nodes ?net1) = (map_of (nodes net))(a \<mapsto> disconnectNeighbor na b)"
    using h by (simp add: on_node_nodes)
  then have b1: "map_of (nodes ?net1) b = Some (if a = b then disconnectNeighbor na b else nb)"
    using h by simp
  have 2: "map_of (nodes ?net2) = (map_of (nodes net))
             (a \<mapsto> disconnectNeighbor na b,
              b \<mapsto> disconnectNeighbor (if a = b then disconnectNeighbor na b else nb) a)"
    using on_node_nodes[OF b1, of "\<lambda>nd. disconnectNeighbor nd a"] 1 by simp
  have "simulateFailure a b net = Inr ([], ?net2)"
    using h by (simp add: simulateFailure_def has_key_def)
  moreover have "keys (nodes ?net2) = keys (nodes net)"
    by (simp add: on_node_keys)
  ultimately show "\<exists>net'. simulateFailure a b net = Inr ([], net') \<and>
         keys (nodes net') = keys (nodes net) \<and>
         map_of (nodes net') =
           (map_of (nodes net))
             (a \<mapsto> disconnectNeighbor na b,
              b \<mapsto> disconnectNeighbor (if a = b then disconnectNeighbor na b else nb) a)"
    using 2 by blast
qed

theorem simulateFailure_effect_witness:
  "\<not> has_key (nodes driver_network) ''Z'' \<and>
   simulateFailure ''A'' ''Z'' driver_network =
     Inr ([''Errore: A o Z non esiste nella rete.''], driver_network) \<and>
   simulateFailure ''A'' ''B'' driver_converged = Inr ([], driver_failed)"
proof -
  have h: "\<not> has_key (nodes driver_network) ''Z''" by code_simp
  have "simulateFailure ''A'' ''Z'' driver_network =
     Inr ([''Errore: '' @ ''A'' @ '' o '' @ ''Z'' @ '' non esiste nella rete.''], driver_network)"
    using simulateFailure_effect[of driver_network "''A''" "''Z''"] h by blast
  moreover have "simulateFailure ''A'' ''B'' driver_converged = Inr ([], driver_failed)"
    by code_simp
  ultimately show ?thesis using h by simp
qed

text \<open>
The claim as stated fails: for an unknown id the call returns normally, like a
successful call, and the only trace is the printed line.
\<close>

theorem simulateFailure_unknown_counterexample:
  "simulateFailure ''A'' ''Z'' driver_network =
     Inr ([''Errore: A o Z non esiste nella rete.''], driver_network)"
  by code_simp

text \<open>
Claim C10. For two existing ids, \<open>connectNodes\<close> leaves in each node's table the direct
entry (cost, other) for the other node, whatever was recorded before; with both ids
equal this is the node's entry for itself.
\<close>

theorem connectNodes_overwrites:
  assumes "has_key (nodes net) a" and "has_key (nodes net) b"
  shows "route_of (connectNodes a b c net) a b = Some (c, Some b) \<and>
         route_of (connectNodes a b c net) b a = Some (c, Some a)"
proof -
  let ?n1 = "on_node a (\<lambda>nd. nd\<lparr>neighbors := AList.update b c (neighbors nd)\<rparr>) net"
  let ?n2 = "on_node b (\<lambda>nd. nd\<lparr>neighbors := AList.update a c (neighbors nd)\<rparr>) ?n1"
  let ?n3 = "on_node a (\<lambda>nd. nd\<lparr>routingTable := AList.update b (c, Some b) (routingTable nd)\<rparr>) ?n2"
  let ?n4 = "on_node b (\<lambda>nd. nd\<lparr>routingTable := AList.update a (c, Some a) (routingTable nd)\<rparr>) ?n3"
  have eq: "connectNodes a b c net = ?n4" using assms by (simp add: connectNodes_def)
  from assms obtain na nb where na: "map_of (nodes net) a = Some na" and nb: "map_of (nodes net) b = Some nb"
    by (auto simp: has_key_def)
  have "has_key (nodes ?n2) a" using assms(1) by (simp add: on_node_has_key)
  then obtain a2 where a2: "map_of (nodes ?n2) a = Some a2"
    by (auto simp: has_key_def)
  have m3: "map_of (nodes ?n3) = (map_of (nodes ?n2))(a \<mapsto> a2\<lparr>routingTable := AList.update b (c, Some b) (routingTable a2)\<rparr>)"
    using on_node_nodes[OF a2] .
  have "has_key (nodes ?n3) b" using assms(2) by (simp add: on_node_has_key)
  then obtain b3 where b3: "map_of (nodes ?n3) b = Some b3"
    by (auto simp: has_key_def)
  have b3rt: "a = b \<longrightarrow> map_of (routingTable b3) b = Some (c, Some b)"
    using b3 m3 by (auto simp: update_conv')
  have m4: "map_of (nodes ?n4) = (map_of (nodes ?n3))(b \<mapsto> b3\<lparr>routingTable := AList.update a (c, Some a) (routingTable b3)\<rparr>)"
    using on_node_nodes[OF b3] .
  have "route_of ?n4 b a = Some (c, Some a)"
    by (simp add: route_of_def m4 update_conv')
  moreover have "route_of ?n4 a b = Some (c, Some b)"
    using b3rt by (auto simp add: route_of_def m4 m3 update_conv')
  ultimately show ?thesis using eq by simp
qed

theorem connectNodes_overwrites_witness:
  "has_key (nodes (addNode ''A'' Network)) ''A'' \<and>
   route_of (addNode ''A'' Network) ''A'' ''A'' = Some (Fin 0, Some ''A'') \<and>
   route_of (connectNodes ''A'' ''A'' (Fin 5) (addNode ''A'' Network)) ''A'' ''A'' = Some (Fin 5, Some ''A'')"
proof -
  have h: "has_key (nodes (addNode ''A'' Network)) ''A''" by code_simp
  have "route_of (addNode ''A'' Network) ''A'' ''A'' = Some (Fin 0, Some ''A'')" by code_simp
  then show ?thesis using connectNodes_overwrites[OF h h, of "Fin 5"] h by simp
qed

text \<open>
Claim C2. The self entry (0, own name) does not survive \<open>connectNodes\<close> with both
ids equal: after \<open>addNode('B'); connectNodes('B', 'B', 3)\<close> node B records cost 3
for itself.
\<close>

theorem self_route_overwritten:
  "route_of (connectNodes ''B'' ''B'' (Fin 3) (addNode ''B'' Network)) ''B'' ''B'' = Some (Fin 3, Some ''B'')"
  by code_simp

text \<open>
Claim C5, amended. On the script's topology (A, B, C with A-B = 1, B-C = 1, A-C = 4) the
first loop stops after two rounds with A reaching B at cost 1 via B, A reaching C at
cost 2 via B, B reaching C at cost 1 via C and C reaching A at cost 2 via B. After
\<open>simulateFailure('A', 'B')\<close> the second loop stops after two rounds, well inside the
cap of 100, at a fixpoint in which A reaches B at cost 5 via C (the link A-C of cost 4
plus the cost 1 that C records for B).
\<close>

theorem driver_scenario:
  "driver_loop 100 driver_network = Inr (2, True, driver_converged) \<and>
   route_of driver_converged ''A'' ''B'' = Some (Fin 1, Some ''B'') \<and>
   route_of driver_converged ''A'' ''C'' = Some (Fin 2, Some ''B'') \<and>
   route_of driver_converged ''B'' ''C'' = Some (Fin 1, Some ''C'') \<and>
   route_of driver_converged ''C'' ''A'' = Some (Fin 2, Some ''B'') \<and>
   simulateFailure ''A'' ''B'' driver_converged = Inr ([], driver_failed) \<and>
   driver_loop 100 driver_failed = Inr (2, True, driver_reconverged) \<and>
   simulateIteration driver_reconverged = Inr (False, driver_reconverged) \<and>
   route_of driver_reconverged ''A'' ''B'' = Some (Fin 5, Some ''C'')"
proof -
  have "route_of driver_converged ''A'' ''B'' = Some (Fin 1, Some ''B'')" by code_simp
  moreover have "route_of driver_converged ''A'' ''C'' = Some (Fin 2, Some ''B'')" by code_simp
  moreover have "route_of driver_converged ''B'' ''C'' = Some (Fin 1, Some ''C'')" by code_simp
  moreover have "route_of driver_converged ''C'' ''A'' = Some (Fin 2, Some ''B'')" by code_simp
  moreover have "simulateIteration driver_reconverged = Inr (False, driver_reconverged)" by code_simp
  moreover have "route_of driver_reconverged ''A'' ''B'' = Some (Fin 5, Some ''C'')" by code_simp
  ultimately show ?thesis using driver_run1 driver_fail driver_run2 by simp
qed

theorem driver_scenario_witness:
  "has_key (nodes driver_converged) ''A'' \<and> has_key (nodes driver_converged) ''B'' \<and>
   simulateFailure ''A'' ''B'' driver_converged = Inr ([], driver_failed) \<and>
   route_of driver_reconverged ''A'' ''B'' = Some (Fin 5, Some ''C'')"
proof -
  have "has_key (nodes driver_converged) ''A''" by code_simp
  moreover have "has_key (nodes driver_converged) ''B''" by code_simp
  ultimately show ?thesis using driver_scenario by simp
qed

text \<open>
The claim as stated fails in its last figure: at the fixpoint after the failure A does
not reach B at cost 4.
\<close>

theorem driver_scenario_counterexample:
  "driver_loop 100 driver_network = Inr (2, True, driver_converged) \<and>
   simulateFailure ''A'' ''B'' driver_converged = Inr ([], driver_failed) \<and>
   driver_loop 100 driver_failed = Inr (2, True, driver_reconverged) \<and>
   route_of driver_reconverged ''A'' ''B'' \<noteq> Some (Fin 4, Some ''C'')"
proof -
  have "route_of driver_reconverged ''A'' ''B'' = Some (Fin 5, Some ''C'')" by code_simp
  then show ?thesis using driver_run1 driver_fail driver_run2 by simp
qed

section \<open>The round against the snapshot reference\<close>

lemma url_real:
  "updateRoutingTable_loop self m nt upd = Inr (u, s') \<Longrightarrow> map_of (neighbors self) m = Some c \<Longrightarrow>
     tcost (routingTable s') d = tcost (routingTable self) d \<or>
     (d \<noteq> name self \<and> (\<exists>nc h. (d, (nc, h)) \<in> set nt \<and> tcost (routingTable s') d = c + nc))"
proof (induction nt arbitrary: self upd)
  case Nil
  then show ?case by simp
next
  case (Cons e nt)
  obtain d0 nc0 h0 where e: "e = (d0, (nc0, h0))" by (cases e) auto
  show ?case
  proof (cases "d0 \<noteq> name self \<and> c + nc0 < tcost (routingTable self) d0")
    case True
    let ?s = "self\<lparr>routingTable := AList.update d0 (c + nc0, Some m) (routingTable self)\<rparr>"
    have run: "updateRoutingTable_loop ?s m nt True = Inr (u, s')"
      using Cons.prems True by (simp add: e Let_def tcost_def)
    have lk: "map_of (neighbors ?s) m = Some c" using Cons.prems(2) by simp
    from Cons.IH[OF run lk] show ?thesis
      using True by (auto simp: e tcost_update split: if_splits)
  next
    case False
    have run: "updateRoutingTable_loop self m nt upd = Inr (u, s')"
      using Cons.prems False by (auto simp: e Let_def tcost_def split: if_splits)
    from Cons.IH[OF run Cons.prems(2)] show ?thesis by auto
  qed
qed

lemma tcost_of_mem:
  "distinct (keys nt) \<Longrightarrow> (d, (nc, h)) \<in> set nt \<Longrightarrow> tcost nt d = nc"
  by (simp add: tcost_def get_route_def keys_def)

lemma url_real':
  assumes "updateRoutingTable_loop self m nt upd = Inr (u, s')" and "map_of (neighbors self) m = Some c"
    and "distinct (keys nt)"
  shows "tcost (routingTable s') d = tcost (routingTable self) d \<or>
     (d \<noteq> name self \<and> tcost (routingTable s') d = c + tcost nt d)"
  using url_real[OF assms(1,2), of d] tcost_of_mem[OF assms(3)] by auto

lemma url_distinct:
  "updateRoutingTable_loop self m nt upd = Inr (u, s') \<Longrightarrow> distinct (keys (routingTable self)) \<Longrightarrow>
     distinct (keys (routingTable s'))"
proof (induction nt arbitrary: self upd)
  case Nil
  then show ?case by simp
next
  case (Cons e nt)
  obtain d0 nc0 h0 where e: "e = (d0, (nc0, h0))" by (cases e) auto
  show ?case
    using Cons.prems Cons.IH
    by (auto simp: e Let_def keys_def distinct_update split: if_splits option.splits)
qed






lemma link_known: "link net n m = Some c \<Longrightarrow> n \<in> set (keys (nodes net))"
  by (auto simp: link_def keys_def split: option.splits dest: map_of_SomeD intro: rev_image_eqI)









lemma cost_add_nonneg: "(0::cost) \<le> a \<Longrightarrow> 0 \<le> b \<Longrightarrow> 0 \<le> a + b"
  by (cases a; cases b) (simp_all add: zero_cost_def)

lemma cost_add_mono_mid: "(0::cost) \<le> b \<Longrightarrow> a + c \<le> a + (b + c)"
  by (cases a; cases b; cases c) (simp_all add: zero_cost_def)

lemma cost_Inf_top [simp]: "(a::cost) \<le> Inf"
  by (cases a) simp_all

lemma cost_not_less_Inf [simp]: "\<not> Inf < (a::cost)"
  by simp

section \<open>Paths\<close>

lemma links_nonnegD:
  "links_nonneg net \<Longrightarrow> link net n m = Some c \<Longrightarrow> \<exists>w. 0 \<le> w \<and> c = Fin w"
  unfolding links_nonneg_def by blast

lemma link_has_key: "link net n m = Some c \<Longrightarrow> has_key (nodes net) n"
  by (auto simp: link_def has_key_def split: option.splits)

lemma valid_path_hd_known: "valid_path net (y # ys) \<Longrightarrow> has_key (nodes net) y"
  by (cases ys) (auto dest: link_has_key)

lemma path_cost_nonneg: "links_nonneg net \<Longrightarrow> 0 \<le> path_cost net p"
proof (induction net p rule: path_cost.induct)
  case (1 net u v rest)
  show ?case
  proof (cases "link net u v")
    case None
    then show ?thesis by simp
  next
    case (Some c)
    then have "0 \<le> c" using links_nonnegD[OF "1.prems"] by (fastforce simp: zero_cost_def)
    then show ?thesis using Some "1.IH"[OF Some "1.prems"] by (simp add: cost_add_nonneg)
  qed
qed (simp_all add: zero_cost_def)

lemma valid_path_finite:
  "links_nonneg net \<Longrightarrow> valid_path net p \<Longrightarrow> \<exists>w. path_cost net p = Fin w"
proof (induction net p rule: valid_path.induct)
  case (3 net u v rest)
  then obtain c where c: "link net u v = Some c" by auto
  then obtain w where "c = Fin w" using links_nonnegD[OF "3.prems"(1)] by blast
  moreover obtain w' where "path_cost net (v # rest) = Fin w'" using 3 by auto
  ultimately show ?case using c by simp
qed (simp_all add: zero_cost_def)

lemma path_cost_append:
  "path_cost net (xs @ y # ys) = path_cost net (xs @ [y]) + path_cost net (y # ys)"
proof (induction xs)
  case Nil
  then show ?case by simp
next
  case (Cons u xs)
  show ?case
  proof (cases xs)
    case Nil
    then show ?thesis by (simp split: option.splits)
  next
    case (Cons v rest)
    then show ?thesis using Cons.IH by (simp add: cost_add_assoc split: option.splits)
  qed
qed

lemma valid_path_append:
  "valid_path net (xs @ y # ys) = (valid_path net (xs @ [y]) \<and> valid_path net (y # ys))"
proof (induction xs)
  case Nil
  then show ?case using valid_path_hd_known[of net y ys] by auto
next
  case (Cons u xs)
  show ?case
  proof (cases xs)
    case Nil
    then show ?thesis using valid_path_hd_known[of net y ys] by auto
  next
    case (Cons v rest)
    then show ?thesis using Cons.IH by simp
  qed
qed

lemma valid_path_known: "valid_path net p \<Longrightarrow> v \<in> set p \<Longrightarrow> has_key (nodes net) v"
proof (induction net p rule: valid_path.induct)
  case (3 net u w rest)
  then show ?case using link_has_key[of net u w] by auto
qed simp_all

lemma has_key_mem_keys: "has_key al k \<Longrightarrow> k \<in> set (keys al)"
  by (auto simp: has_key_def keys_def dest: map_of_SomeD intro: rev_image_eqI)

lemma distinct_path_length:
  assumes "valid_path net p" and "distinct p"
  shows "length p \<le> length (nodes net)"
proof -
  have "set p \<subseteq> set (keys (nodes net))"
  proof
    fix v
    assume "v \<in> set p"
    with assms(1) have "has_key (nodes net) v" by (rule valid_path_known)
    then show "v \<in> set (keys (nodes net))" by (rule has_key_mem_keys)
  qed
  then have "card (set p) \<le> card (set (keys (nodes net)))"
    by (intro card_mono) simp_all
  also have "\<dots> \<le> length (keys (nodes net))" by (rule card_length)
  finally show ?thesis using assms(2) by (simp add: distinct_card keys_def)
qed

lemma cut_cycle:
  assumes "links_nonneg net" and "valid_path net (xs @ y # ys @ y # zs)"
  shows "valid_path net (xs @ y # zs) \<and>
         path_cost net (xs @ y # zs) \<le> path_cost net (xs @ y # ys @ y # zs)"
proof -
  have v: "valid_path net (xs @ [y])" "valid_path net (y # ys @ y # zs)"
    using assms(2) valid_path_append[of net xs y "ys @ y # zs"] by simp_all
  have "valid_path net ((y # ys) @ y # zs)" using v(2) by simp
  then have vz: "valid_path net (y # zs)"
    using valid_path_append[of net "y # ys" y zs] by simp
  have 1: "valid_path net (xs @ y # zs)"
    using v(1) vz valid_path_append[of net xs y zs] by simp
  have "path_cost net (xs @ y # ys @ y # zs) =
        path_cost net (xs @ [y]) + path_cost net ((y # ys) @ y # zs)"
    using path_cost_append[of net xs y "ys @ y # zs"] by simp
  also have "\<dots> = path_cost net (xs @ [y]) + (path_cost net ((y # ys) @ [y]) + path_cost net (y # zs))"
    using path_cost_append[of net "y # ys" y zs] by simp
  finally have "path_cost net (xs @ y # ys @ y # zs) =
      path_cost net (xs @ [y]) + (path_cost net ((y # ys) @ [y]) + path_cost net (y # zs))" .
  moreover have "path_cost net (xs @ [y]) + path_cost net (y # zs) \<le>
      path_cost net (xs @ [y]) + (path_cost net ((y # ys) @ [y]) + path_cost net (y # zs))"
    using path_cost_nonneg[OF assms(1)] by (rule cost_add_mono_mid)
  moreover have "path_cost net (xs @ y # zs) = path_cost net (xs @ [y]) + path_cost net (y # zs)"
    by (rule path_cost_append)
  ultimately show ?thesis using 1 by simp
qed

text \<open>
With non-negative link costs a path can be cut down to one that visits no node twice
and costs no more; such a path has at most as many nodes as the network.
\<close>

lemma simple_path_exists:
  assumes "links_nonneg net"
  shows "is_path net a b p \<Longrightarrow>
     \<exists>q. is_path net a b q \<and> distinct q \<and> path_cost net q \<le> path_cost net p"
proof (induction "length p" arbitrary: p rule: less_induct)
  case less
  show ?case
  proof (cases "distinct p")
    case True
    then show ?thesis using less.prems by auto
  next
    case False
    then obtain xs ys zs y where p: "p = xs @ [y] @ ys @ [y] @ zs"
      using not_distinct_decomp by blast
    let ?q = "xs @ y # zs"
    have vp: "valid_path net (xs @ y # ys @ y # zs)"
      using less.prems p by (simp add: is_path_def)
    from cut_cycle[OF assms vp] have vq: "valid_path net ?q"
      and cq: "path_cost net ?q \<le> path_cost net p" using p by simp_all
    have "hd ?q = hd p" using p by (cases xs) simp_all
    moreover have "last ?q = last p" using p by simp
    ultimately have "is_path net a b ?q" using vq less.prems by (simp add: is_path_def)
    moreover have "length ?q < length p" using p by simp
    ultimately have "\<exists>q. is_path net a b q \<and> distinct q \<and> path_cost net q \<le> path_cost net ?q"
      by (rule less.hyps[rotated])
    then obtain q where q: "is_path net a b q" "distinct q" "path_cost net q \<le> path_cost net ?q"
      by blast
    have "path_cost net q \<le> path_cost net p" using q(3) cq by (rule order_trans)
    then show ?thesis using q(1,2) by blast
  qed
qed

lemma path_net_le:
  "net_le net' net \<Longrightarrow> path_cost net' p = path_cost net p \<and> valid_path net' p = valid_path net p"
proof (induction net p rule: valid_path.induct)
  case (2 net v)
  then show ?case using net_le_known[OF 2, of v] by (simp add: has_key_def)
next
  case (3 net u v rest)
  then show ?case using net_le_link[of net' net u v] by (simp split: option.splits)
qed simp

lemma is_path_net_le: "net_le net' net \<Longrightarrow> is_path net' a b p = is_path net a b p"
  by (simp add: is_path_def path_net_le)

section \<open>Convergence on a static topology\<close>

lemma is_path_cons:
  assumes "is_path net m d q" and "link net n m = Some c"
  shows "is_path net n d (n # q) \<and> path_cost net (n # q) = c + path_cost net q"
proof -
  from assms(1) obtain q' where q: "q = m # q'"
    by (cases q) (auto simp: is_path_def)
  show ?thesis using assms by (simp add: q is_path_def)
qed

lemma realizable_update:
  assumes real: "realizable net" and names: "names_ok net" and tabs: "tables_ok net"
    and n: "map_of (nodes net) n = Some nv" and m: "map_of (nodes net) m = Some mv"
    and lk: "map_of (neighbors nv) m = Some c"
    and r: "updateRoutingTable_loop nv m (routingTable mv) upd = Inr (u1, nv1)"
  shows "realizable (net\<lparr>nodes := AList.update n nv1 (nodes net)\<rparr>) \<and>
         tables_ok (net\<lparr>nodes := AList.update n nv1 (nodes net)\<rparr>)"
proof -
  let ?net1 = "net\<lparr>nodes := AList.update n nv1 (nodes net)\<rparr>"
  have le1: "node_le nv1 nv" using url_node_le[OF r] .
  have nle: "net_le ?net1 net" using net_le_update[OF n le1] .
  have dm: "distinct (keys (routingTable mv))" using tabs m by (auto simp: tables_ok_def)
  have dn: "distinct (keys (routingTable nv))" using tabs n by (auto simp: tables_ok_def)
  have t1: "tables_ok ?net1"
    unfolding tables_ok_def
  proof (intro allI impI)
    fix k nd
    assume "map_of (nodes ?net1) k = Some nd"
    then have "nd = nv1 \<or> map_of (nodes net) k = Some nd"
      by (auto simp: update_conv' split: if_splits)
    then show "distinct (keys (routingTable nd))"
      using url_distinct[OF r dn] tabs by (auto simp: tables_ok_def)
  qed
  have nm: "name nv = n" using names n by (simp add: names_ok_def)
  have "rcost ?net1 a b = Inf \<or> (\<exists>p. is_path ?net1 a b p \<and> path_cost ?net1 p = rcost ?net1 a b)" for a b
  proof -
    have old: "rcost net a b = Inf \<or> (\<exists>p. is_path net a b p \<and> path_cost net p = rcost net a b)"
      using real by (simp add: realizable_def)
    have keep: "rcost ?net1 a b = rcost net a b \<Longrightarrow> ?thesis"
      using old by (auto simp: is_path_net_le[OF nle] path_net_le[OF nle])
    show ?thesis
    proof (cases "a = n")
      case False
      then have "rcost ?net1 a b = rcost net a b" by (simp add: rcost_def update_conv')
      then show ?thesis by (rule keep)
    next
      case True
      have r1: "rcost ?net1 a b = tcost (routingTable nv1) b"
        using True by (simp add: rcost_def update_conv')
      have r0: "rcost net a b = tcost (routingTable nv) b"
        using True n by (simp add: rcost_def)
      have rm: "rcost net m b = tcost (routingTable mv) b"
        using m by (simp add: rcost_def)
      from url_real'[OF r lk dm, of b] show ?thesis
      proof
        assume "tcost (routingTable nv1) b = tcost (routingTable nv) b"
        then have "rcost ?net1 a b = rcost net a b" using r1 r0 by simp
        then show ?thesis by (rule keep)
      next
        assume new: "b \<noteq> name nv \<and> tcost (routingTable nv1) b = c + tcost (routingTable mv) b"
        show ?thesis
        proof (cases "rcost net m b = Inf")
          case True
          then have "rcost ?net1 a b = Inf" using new r1 rm by simp
          then show ?thesis by simp
        next
          case False
          then obtain q where q: "is_path net m b q" "path_cost net q = rcost net m b"
            using real by (auto simp: realizable_def)
          have "link net n m = Some c" using n lk by (simp add: link_def)
          from is_path_cons[OF q(1) this]
          have "is_path net a b (n # q)" "path_cost net (n # q) = c + rcost net m b"
            using q(2) True by simp_all
          then have "is_path ?net1 a b (n # q) \<and> path_cost ?net1 (n # q) = rcost ?net1 a b"
            using new r1 rm by (simp add: is_path_net_le[OF nle] path_net_le[OF nle])
          then show ?thesis by blast
        qed
      qed
    qed
  qed
  then show ?thesis using t1 by (simp add: realizable_def)
qed

lemma nl_realizable:
  "neighbors_loop n nv ms net upd = Inr (u, net') \<Longrightarrow> map_of (nodes net) n = Some nv \<Longrightarrow>
   set ms \<subseteq> set (keys (neighbors nv)) \<Longrightarrow> names_ok net \<Longrightarrow> tables_ok net \<Longrightarrow> realizable net \<Longrightarrow>
     tables_ok net' \<and> realizable net'"
proof (induction ms arbitrary: nv net upd)
  case Nil
  then show ?case by simp
next
  case (Cons m ms)
  have sub: "set ms \<subseteq> set (keys (neighbors nv))" using Cons.prems(3) by simp
  show ?case
  proof (cases "map_of (nodes net) m")
    case None
    then have "neighbors_loop n nv ms net upd = Inr (u, net')" using Cons.prems(1) by simp
    from Cons.IH[OF this Cons.prems(2) sub Cons.prems(4,5,6)] show ?thesis .
  next
    case (Some mv)
    from Cons.prems(1) Some obtain u1 nv1 where
      r: "updateRoutingTable_loop nv m (routingTable mv) False = Inr (u1, nv1)"
      by (auto simp: updateRoutingTable_def shareTable_def split: sum.splits)
    let ?net1 = "net\<lparr>nodes := AList.update n nv1 (nodes net)\<rparr>"
    have run: "neighbors_loop n nv1 ms ?net1 (upd \<or> u1) = Inr (u, net')"
      using Cons.prems(1) Some r by (simp add: updateRoutingTable_def shareTable_def)
    have cur: "map_of (nodes ?net1) n = Some nv1" by (simp add: update_conv')
    have le1: "node_le nv1 nv" using url_node_le[OF r] .
    have nle: "net_le ?net1 net" using net_le_update[OF Cons.prems(2) le1] .
    have sub1: "set ms \<subseteq> set (keys (neighbors nv1))" using sub le1 by (simp add: node_le_def)
    obtain c where lk: "map_of (neighbors nv) m = Some c"
      using Cons.prems(3) map_of_keys_mem[of m "neighbors nv"] by auto
    from realizable_update[OF Cons.prems(6,4,5,2) Some lk r]
    have "realizable ?net1" "tables_ok ?net1" by simp_all
    moreover have "names_ok ?net1" using nle Cons.prems(4) by (rule net_le_names_ok)
    ultimately show ?thesis using Cons.IH[OF run cur sub1] by blast
  qed
qed

text \<open>
Every finite cost a round records is the cost of a path that follows recorded links.
\<close>

lemma ndl_realizable:
  "nodes_loop ns net upd = Inr (u, net') \<Longrightarrow> names_ok net \<Longrightarrow> tables_ok net \<Longrightarrow> realizable net \<Longrightarrow>
     tables_ok net' \<and> realizable net'"
proof (induction ns arbitrary: net upd)
  case Nil
  then show ?case by simp
next
  case (Cons n ns)
  show ?case
  proof (cases "map_of (nodes net) n")
    case None
    then have "nodes_loop ns net upd = Inr (u, net')" using Cons.prems(1) by simp
    from Cons.IH[OF this Cons.prems(2,3,4)] show ?thesis .
  next
    case (Some nv)
    from Cons.prems(1) Some obtain u1 net1 where
      r: "neighbors_loop n nv (keys (neighbors nv)) net upd = Inr (u1, net1)"
      and run: "nodes_loop ns net1 u1 = Inr (u, net')"
      by (auto split: sum.splits)
    have "net_le net1 net" using nl_net_le[OF r Some] by simp
    then have "names_ok net1" using Cons.prems(2) by (rule net_le_names_ok)
    moreover have "tables_ok net1 \<and> realizable net1"
      using nl_realizable[OF r Some subset_refl Cons.prems(2,3,4)] .
    ultimately show ?thesis using Cons.IH[OF run] by blast
  qed
qed

lemma net_le_has_key: "net_le net' net \<Longrightarrow> has_key (nodes net') n = has_key (nodes net) n"
  using net_le_known[of net' net n] by (simp add: has_key_def)

lemma net_le_links_nonneg: "net_le net' net \<Longrightarrow> links_nonneg net \<Longrightarrow> links_nonneg net'"
  by (simp add: links_nonneg_def net_le_link)

lemma net_le_selfzero: "net_le net' net \<Longrightarrow> selfzero net \<Longrightarrow> selfzero net'"
  unfolding selfzero_def
proof (intro allI impI)
  fix n
  assume le: "net_le net' net" and z: "\<forall>n. has_key (nodes net) n \<longrightarrow> rcost net n n \<le> 0"
    and k: "has_key (nodes net') n"
  have "rcost net' n n \<le> rcost net n n" using le by (rule net_le_rcost)
  also have "\<dots> \<le> 0" using z k net_le_has_key[OF le] by simp
  finally show "rcost net' n n \<le> 0" .
qed

text \<open>
One round extends the bound on costs from the paths of at most \<open>k + 1\<close> links to those
of at most \<open>k + 2\<close> links.
\<close>

lemma si_within:
  assumes run: "simulateIteration net = Inr (u, net')" and names: "names_ok net"
    and nonneg: "links_nonneg net" and sz: "selfzero net" and w: "within k net"
  shows "within (Suc k) net'"
  unfolding within_def
proof (intro allI impI)
  fix a b p
  assume h: "is_path net' a b p \<and> length p \<le> Suc k + 2"
  have g: "nodes_loop (keys (nodes net)) net False = Inr (u, net')"
    using run by (simp add: simulateIteration_def)
  have le: "net_le net' net" using si_net_le[OF run] by simp
  have ip: "is_path net a b p" using h is_path_net_le[OF le] by simp
  have pc: "path_cost net' p = path_cost net p" using path_net_le[OF le] by simp
  have mono: "rcost net' a b \<le> rcost net a b" using le by (rule net_le_rcost)
  show "rcost net' a b \<le> path_cost net' p"
  proof (cases p)
    case Nil
    then show ?thesis using ip by (simp add: is_path_def)
  next
    case (Cons v rest)
    note p1 = Cons
    show ?thesis
    proof (cases rest)
      case Nil
      then have "a = b" "has_key (nodes net) a" using ip p1 by (auto simp: is_path_def)
      then have "rcost net a b \<le> 0" using sz by (simp add: selfzero_def)
      then have "rcost net' a b \<le> 0" using mono by (rule order_trans[rotated])
      then show ?thesis using pc p1 Nil by simp
    next
      case (Cons m rest')
      have av: "v = a" using ip p1 by (simp add: is_path_def)
      have vp: "valid_path net (a # m # rest')" using ip p1 Cons av by (simp add: is_path_def)
      then obtain c where lk: "link net a m = Some c" by auto
      have q: "is_path net m b (m # rest')"
        using ip p1 Cons vp by (simp add: is_path_def)
      have cost: "path_cost net p = c + path_cost net (m # rest')"
        using p1 Cons av lk by simp
      show ?thesis
      proof (cases "b = a")
        case True
        have "has_key (nodes net) a" using lk by (rule link_has_key)
        then have "rcost net a a \<le> 0" using sz by (simp add: selfzero_def)
        moreover have "0 \<le> path_cost net p" using nonneg by (rule path_cost_nonneg)
        ultimately have "rcost net a a \<le> path_cost net p" by (rule order_trans)
        then show ?thesis using mono True pc by (auto intro: order_trans)
      next
        case False
        have "length (m # rest') \<le> k + 2" using h p1 Cons by simp
        then have bx: "rcost net m b \<le> path_cost net (m # rest')"
          using w q by (simp add: within_def)
        have kn: "map_of (nodes net) m \<noteq> None"
          using valid_path_hd_known[of net m rest'] vp by (simp add: has_key_def)
        have "rcost net' a b \<le> c + path_cost net (m # rest')"
          using ndl_bound[OF g names link_known[OF lk] lk kn False bx] .
        then show ?thesis using cost pc by simp
      qed
    qed
  qed
qed

lemma rounds_within:
  "rounds k net = Inr netk \<Longrightarrow> names_ok net \<Longrightarrow> links_nonneg net \<Longrightarrow> selfzero net \<Longrightarrow>
   within j net \<Longrightarrow> within (j + k) netk \<and> net_le netk net"
proof (induction k arbitrary: net j)
  case 0
  then show ?case by (simp add: net_le_refl)
next
  case (Suc k)
  from si_total[of net] obtain u net1 where s: "simulateIteration net = Inr (u, net1)" by blast
  have run: "rounds k net1 = Inr netk" using Suc.prems(1) s by simp
  have le: "net_le net1 net" using si_net_le[OF s] by simp
  have "within (Suc j) net1" using si_within[OF s Suc.prems(2,3,4,5)] .
  from Suc.IH[OF run net_le_names_ok[OF le Suc.prems(2)] net_le_links_nonneg[OF le Suc.prems(3)]
      net_le_selfzero[OF le Suc.prems(4)] this]
  show ?case using le by (auto intro: net_le_trans)
qed

lemma rounds_realizable:
  "rounds k net = Inr netk \<Longrightarrow> names_ok net \<Longrightarrow> tables_ok net \<Longrightarrow> realizable net \<Longrightarrow>
     names_ok netk \<and> tables_ok netk \<and> realizable netk"
proof (induction k arbitrary: net)
  case 0
  then show ?case by simp
next
  case (Suc k)
  from si_total[of net] obtain u net1 where s: "simulateIteration net = Inr (u, net1)" by blast
  have run: "rounds k net1 = Inr netk" using Suc.prems(1) s by simp
  have g: "nodes_loop (keys (nodes net)) net False = Inr (u, net1)"
    using s by (simp add: simulateIteration_def)
  have le: "net_le net1 net" using si_net_le[OF s] by simp
  have "tables_ok net1 \<and> realizable net1" using ndl_realizable[OF g Suc.prems(2,3,4)] .
  then show ?case using Suc.IH[OF run net_le_names_ok[OF le Suc.prems(2)]] by blast
qed

lemma within_settled:
  assumes "within k net" and "links_nonneg net" and "length (nodes net) \<le> k + 2"
  shows "settled net"
  unfolding settled_def
proof (intro allI impI)
  fix a b p
  assume "is_path net a b p"
  from simple_path_exists[OF assms(2) this] obtain q where
    q: "is_path net a b q" "distinct q" "path_cost net q \<le> path_cost net p" by blast
  have "length q \<le> length (nodes net)"
    using distinct_path_length[of net q] q(1,2) by (simp add: is_path_def)
  then have "length q \<le> k + 2" using assms(3) by simp
  then have "rcost net a b \<le> path_cost net q" using assms(1) q(1) by (simp add: within_def)
  then show "rcost net a b \<le> path_cost net p" using q(3) by (rule order_trans)
qed

lemma url_no_change:
  "map_of (neighbors self) m = Some c \<Longrightarrow>
   (\<And>d nc h. (d, (nc, h)) \<in> set nt \<Longrightarrow> d \<noteq> name self \<Longrightarrow> \<not> c + nc < tcost (routingTable self) d) \<Longrightarrow>
     updateRoutingTable_loop self m nt upd = Inr (upd, self)"
proof (induction nt)
  case Nil
  then show ?case by simp
next
  case (Cons e nt)
  obtain d0 nc0 h0 where e: "e = (d0, (nc0, h0))" by (cases e) auto
  have rest: "updateRoutingTable_loop self m nt upd = Inr (upd, self)"
  proof (rule Cons.IH[OF Cons.prems(1)])
    fix d nc h
    assume "(d, (nc, h)) \<in> set nt" and "d \<noteq> name self"
    then show "\<not> c + nc < tcost (routingTable self) d"
      using Cons.prems(2)[of d nc h] by simp
  qed
  show ?case
  proof (cases "d0 = name self")
    case True
    then show ?thesis using rest by (simp add: e)
  next
    case False
    have "\<not> c + nc0 < tcost (routingTable self) d0"
      using Cons.prems(2)[of d0 nc0 h0] False by (simp add: e)
    then show ?thesis using rest False Cons.prems(1) by (simp add: e Let_def tcost_def)
  qed
qed

lemma settled_candidate:
  assumes names: "names_ok net" and tabs: "tables_ok net" and real: "realizable net"
    and st: "settled net"
    and n: "map_of (nodes net) n = Some nv" and m: "map_of (nodes net) m = Some mv"
    and lk: "map_of (neighbors nv) m = Some c"
    and e: "(d, (nc, h)) \<in> set (routingTable mv)"
  shows "\<not> c + nc < tcost (routingTable nv) d"
proof (cases "nc = Inf")
  case True
  then show ?thesis by simp
next
  case False
  have dm: "distinct (keys (routingTable mv))" using tabs m by (auto simp: tables_ok_def)
  have nc: "rcost net m d = nc" using tcost_of_mem[OF dm e] m by (simp add: rcost_def)
  then obtain q where q: "is_path net m d q" "path_cost net q = nc"
    using real False by (auto simp: realizable_def)
  have "link net n m = Some c" using n lk by (simp add: link_def)
  from is_path_cons[OF q(1) this] have p: "is_path net n d (n # q)"
    and pc: "path_cost net (n # q) = c + nc"
    using q(2) by simp_all
  have "rcost net n d \<le> path_cost net (n # q)"
    using st p unfolding settled_def by blast
  then have "rcost net n d \<le> c + nc" using pc by simp
  then show ?thesis using n by (simp add: rcost_def not_less)
qed

lemma nl_no_change:
  assumes names: "names_ok net" and tabs: "tables_ok net" and real: "realizable net"
    and st: "settled net" and n: "map_of (nodes net) n = Some nv"
  shows "set ms \<subseteq> set (keys (neighbors nv)) \<Longrightarrow> neighbors_loop n nv ms net upd = Inr (upd, net)"
proof (induction ms)
  case Nil
  then show ?case by simp
next
  case (Cons m ms)
  have rest: "neighbors_loop n nv ms net upd = Inr (upd, net)" using Cons by simp
  show ?case
  proof (cases "map_of (nodes net) m")
    case None
    then show ?thesis using rest by simp
  next
    case (Some mv)
    obtain c where lk: "map_of (neighbors nv) m = Some c"
      using Cons.prems map_of_keys_mem[of m "neighbors nv"] by auto
    have "updateRoutingTable_loop nv m (routingTable mv) False = Inr (False, nv)"
      using settled_candidate[OF names tabs real st n Some lk]
      by (intro url_no_change[OF lk]) blast
    moreover have "net\<lparr>nodes := AList.update n nv (nodes net)\<rparr> = net"
      using n by (intro network_eqI) (simp add: update_triv)
    ultimately show ?thesis using rest Some
      by (simp add: updateRoutingTable_def shareTable_def)
  qed
qed

lemma ndl_no_change:
  assumes names: "names_ok net" and tabs: "tables_ok net" and real: "realizable net"
    and st: "settled net"
  shows "nodes_loop ns net upd = Inr (upd, net)"
proof (induction ns)
  case Nil
  then show ?case by simp
next
  case (Cons n ns)
  show ?case
  proof (cases "map_of (nodes net) n")
    case None
    then show ?thesis using Cons by simp
  next
    case (Some nv)
    have "neighbors_loop n nv (keys (neighbors nv)) net upd = Inr (upd, net)"
      using nl_no_change[OF names tabs real st Some subset_refl] .
    then show ?thesis using Some Cons by simp
  qed
qed

text \<open>
Where every cost is at most the cost of every path and is the cost of a path, no
candidate is a strict improvement: the round changes nothing and returns false.
\<close>

lemma settled_no_change:
  assumes "names_ok net" and "tables_ok net" and "realizable net" and "settled net"
  shows "simulateIteration net = Inr (False, net)"
  using ndl_no_change[OF assms] by (simp add: simulateIteration_def)

lemma rounds_fixpoint:
  assumes "simulateIteration net = Inr (False, net)"
  shows "rounds k net = Inr net"
  by (induction k) (use assms in auto)

text \<open>
If the network after \<open>k\<close> rounds is a fixpoint, the driver loop stops within
\<open>k + 1\<close> rounds, in that network.
\<close>

lemma driver_loop_reaches:
  "rounds k net = Inr netk \<Longrightarrow> simulateIteration netk = Inr (False, netk) \<Longrightarrow> k < cap \<Longrightarrow>
     \<exists>r. driver_loop cap net = Inr (r, True, netk) \<and> r \<le> Suc k"
proof (induction k arbitrary: net cap)
  case 0
  then obtain cap' where cap: "cap = Suc cap'" by (cases cap) auto
  have "netk = net" using 0 by simp
  then show ?case using 0 cap by simp
next
  case (Suc k)
  then obtain cap' where cap: "cap = Suc cap'" by (cases cap) auto
  from si_total[of net] obtain u net1 where s: "simulateIteration net = Inr (u, net1)" by blast
  have run: "rounds k net1 = Inr netk" using Suc.prems(1) s by simp
  show ?case
  proof (cases u)
    case False
    then have eq: "net1 = net" using si_net_le[OF s] by simp
    then have "rounds k net = Inr net" using rounds_fixpoint[of net k] s False by simp
    then have "netk = net" using run eq by simp
    then show ?thesis using s False eq cap by simp
  next
    case True
    have "k < cap'" using Suc.prems(3) cap by simp
    from Suc.IH[OF run Suc.prems(2) this] obtain r where
      "driver_loop cap' net1 = Inr (r, True, netk)" "r \<le> Suc k" by blast
    then show ?thesis using s True cap by simp
  qed
qed

lemma topology_node_ok:
  "topology_ok net \<Longrightarrow> map_of (nodes net) k = Some nd \<Longrightarrow> node_ok net k nd"
  by (auto simp: topology_ok_def list_all_iff dest: map_of_SomeD)

lemma node_ok_link:
  assumes "node_ok net k nd" and "map_of (neighbors nd) m = Some c"
  shows "m \<noteq> k \<and> has_key (nodes net) m \<and> Fin 0 \<le> c \<and> c \<noteq> Inf \<and>
         map_of (routingTable nd) m = Some (c, Some m)"
proof -
  have "(m, c) \<in> set (neighbors nd)" using assms(2) by (rule map_of_SomeD)
  then show ?thesis using assms(1) by (auto simp: node_ok_def list_all_iff)
qed

lemma node_ok_entry:
  assumes "node_ok net k nd" and "map_of (routingTable nd) d = Some e" and "d \<noteq> k"
  shows "has_key (neighbors nd) d"
proof -
  have "(d, e) \<in> set (routingTable nd)" using assms(2) by (rule map_of_SomeD)
  then show ?thesis using assms(1,3) by (auto simp: node_ok_def list_all_iff)
qed

lemma topology_names_ok: "topology_ok net \<Longrightarrow> names_ok net"
  unfolding names_ok_def using topology_node_ok by (auto simp: node_ok_def)

lemma topology_tables_ok: "topology_ok net \<Longrightarrow> tables_ok net"
  unfolding tables_ok_def using topology_node_ok by (auto simp: node_ok_def)

lemma topology_links_nonneg: "topology_ok net \<Longrightarrow> links_nonneg net"
  unfolding links_nonneg_def
proof (intro allI impI)
  fix n m c
  assume t: "topology_ok net" and l: "link net n m = Some c"
  then obtain nd where nd: "map_of (nodes net) n = Some nd" "map_of (neighbors nd) m = Some c"
    by (auto simp: link_def split: option.splits)
  from node_ok_link[OF topology_node_ok[OF t nd(1)] nd(2)]
  have "Fin 0 \<le> c" "c \<noteq> Inf" by simp_all
  then show "\<exists>w. 0 \<le> w \<and> c = Fin w" by (cases c) simp_all
qed

lemma topology_self:
  "topology_ok net \<Longrightarrow> has_key (nodes net) n \<Longrightarrow> rcost net n n = 0"
proof -
  assume t: "topology_ok net" and "has_key (nodes net) n"
  then obtain nd where nd: "map_of (nodes net) n = Some nd" by (auto simp: has_key_def)
  from topology_node_ok[OF t nd] show ?thesis
    using nd by (simp add: node_ok_def rcost_def tcost_def get_route_def zero_cost_def)
qed

lemma topology_selfzero: "topology_ok net \<Longrightarrow> selfzero net"
  by (simp add: selfzero_def topology_self)

lemma topology_direct:
  assumes t: "topology_ok net" and l: "link net a b = Some c"
  shows "rcost net a b = c \<and> has_key (nodes net) b \<and> b \<noteq> a"
proof -
  from l obtain nd where nd: "map_of (nodes net) a = Some nd" "map_of (neighbors nd) b = Some c"
    by (auto simp: link_def split: option.splits)
  from node_ok_link[OF topology_node_ok[OF t nd(1)] nd(2)] show ?thesis
    using nd(1) by (simp add: rcost_def tcost_def get_route_def)
qed

lemma topology_within0: "topology_ok net \<Longrightarrow> within 0 net"
  unfolding within_def
proof (intro allI impI)
  fix a b p
  assume t: "topology_ok net" and h: "is_path net a b p \<and> length p \<le> 0 + 2"
  show "rcost net a b \<le> path_cost net p"
  proof (cases p)
    case Nil
    then show ?thesis using h by (simp add: is_path_def)
  next
    case (Cons v rest)
    note p1 = Cons
    show ?thesis
    proof (cases rest)
      case Nil
      then have ab: "a = b" and ka: "has_key (nodes net) a" using h p1 by (auto simp: is_path_def)
      have "rcost net a a = 0" using t ka by (rule topology_self)
      then show ?thesis using ab p1 Nil by simp
    next
      case (Cons m rest')
      then have r: "rest' = []" using h p1 by simp
      have "v = a" "m = b" "link net a b \<noteq> None"
        using h p1 Cons r by (auto simp: is_path_def)
      then obtain c where c: "link net a b = Some c" by auto
      have "path_cost net p = c" using p1 Cons r c \<open>v = a\<close> \<open>m = b\<close> by simp
      then show ?thesis using topology_direct[OF t c] by simp
    qed
  qed
qed

lemma topology_realizable: "topology_ok net \<Longrightarrow> realizable net"
  unfolding realizable_def
proof (intro allI)
  fix a b
  assume t: "topology_ok net"
  show "rcost net a b = Inf \<or> (\<exists>p. is_path net a b p \<and> path_cost net p = rcost net a b)"
  proof (cases "map_of (nodes net) a")
    case None
    then show ?thesis by (simp add: rcost_def)
  next
    case (Some nd)
    note nd = Some
    have ok: "node_ok net a nd" using topology_node_ok[OF t nd] .
    show ?thesis
    proof (cases "b = a")
      case True
      have "is_path net a a [a]" using nd by (simp add: is_path_def has_key_def)
      moreover have "path_cost net [a] = rcost net a a"
        using topology_self[OF t, of a] nd by (simp add: has_key_def)
      ultimately show ?thesis using True by blast
    next
      case False
      show ?thesis
      proof (cases "map_of (routingTable nd) b")
        case None
        then show ?thesis using nd by (simp add: rcost_def tcost_def get_route_def)
      next
        case (Some e)
        from node_ok_entry[OF ok Some False] obtain c where
          c: "map_of (neighbors nd) b = Some c" by (auto simp: has_key_def)
        then have l: "link net a b = Some c" using nd by (simp add: link_def)
        from topology_direct[OF t l] have rc: "rcost net a b = c" and kb: "has_key (nodes net) b"
          by simp_all
        have "is_path net a b [a, b]" using l kb by (simp add: is_path_def)
        moreover have "path_cost net [a, b] = rcost net a b" using l rc by simp
        ultimately show ?thesis by blast
      qed
    qed
  qed
qed

lemma net_le_length: "net_le net' net \<Longrightarrow> length (nodes net') = length (nodes net)"
proof -
  assume "net_le net' net"
  then have "keys (nodes net') = keys (nodes net)" by (simp add: net_le_def)
  then have "length (keys (nodes net')) = length (keys (nodes net))" by simp
  then show ?thesis by (simp add: keys_def)
qed

lemma connectedI:
  assumes "\<forall>a\<in>set (keys (nodes net)). \<forall>b\<in>set (keys (nodes net)). is_path net a b (f a b)"
  shows "connected net"
  unfolding connected_def
proof (intro allI impI)
  fix a b
  assume "has_key (nodes net) a \<and> has_key (nodes net) b"
  then have "a \<in> set (keys (nodes net))" "b \<in> set (keys (nodes net))"
    by (simp_all add: has_key_mem_keys)
  then have "is_path net a b (f a b)" using assms by blast
  then show "\<exists>p. is_path net a b p" ..
qed

text \<open>
Claim C4, amended. For a connected topology of \<open>N\<close> nodes with finite non-negative link
costs, in the state \<open>addNode\<close> and \<open>connectNodes\<close> leave it in (every network built by
them is one, see \<open>built_topology_ok\<close>), the loop of the script with a cap of at least
\<open>max 1 (N - 1)\<close> rounds stops at a round that returns false after at most
\<open>max 1 (N - 1)\<close> rounds, and in the state it stops in the cost every node records for
every node is the shortest-path distance between the two.
\<close>

theorem convergence_on_static_topology:
  assumes topo: "topology_ok net" and conn: "connected net"
    and cap: "max 1 (length (nodes net) - 1) \<le> cap"
  shows "\<exists>r net'. driver_loop cap net = Inr (r, True, net') \<and>
           r \<le> max 1 (length (nodes net) - 1) \<and>
           simulateIteration net' = Inr (False, net') \<and>
           (\<forall>a b. has_key (nodes net) a \<and> has_key (nodes net) b \<longrightarrow>
                  shortest net a b (rcost net' a b))"
proof -
  define K where "K = max 1 (length (nodes net) - 1) - 1"
  from rounds_total[of K net] obtain netK where rk: "rounds K net = Inr netK" by blast
  have names: "names_ok net" and tabs: "tables_ok net" and nonneg: "links_nonneg net"
    and sz: "selfzero net" and w0: "within 0 net" and real: "realizable net"
    using topo
    by (simp_all add: topology_names_ok topology_tables_ok topology_links_nonneg
        topology_selfzero topology_within0 topology_realizable)
  from rounds_within[OF rk names nonneg sz w0]
  have wK: "within K netK" and le: "net_le netK net" by simp_all
  from rounds_realizable[OF rk names tabs real]
  have namesK: "names_ok netK" and tabsK: "tables_ok netK" and realK: "realizable netK"
    by simp_all
  have nonnegK: "links_nonneg netK" using le nonneg by (rule net_le_links_nonneg)
  have "length (nodes netK) \<le> K + 2"
    using net_le_length[OF le] unfolding K_def by linarith
  with wK nonnegK have st: "settled netK" by (rule within_settled)
  have fixp: "simulateIteration netK = Inr (False, netK)"
    using namesK tabsK realK st by (rule settled_no_change)
  have "K < cap" using cap unfolding K_def by linarith
  from driver_loop_reaches[OF rk fixp this] obtain r where
    r: "driver_loop cap net = Inr (r, True, netK)" "r \<le> Suc K" by blast
  have rb: "r \<le> max 1 (length (nodes net) - 1)" using r(2) unfolding K_def by linarith
  have sh: "shortest net a b (rcost netK a b)"
    if k: "has_key (nodes net) a \<and> has_key (nodes net) b" for a b
  proof -
    from conn k obtain p where p: "is_path net a b p" by (auto simp: connected_def)
    have low: "rcost netK a b \<le> path_cost net q" if "is_path net a b q" for q
    proof -
      have "is_path netK a b q" using that is_path_net_le[OF le] by simp
      then have "rcost netK a b \<le> path_cost netK q" using st unfolding settled_def by blast
      then show ?thesis using path_net_le[OF le] by simp
    qed
    obtain w where "path_cost net p = Fin w"
      using valid_path_finite[OF nonneg] p by (auto simp: is_path_def)
    then have "rcost netK a b \<le> Fin w" using low[OF p] by simp
    then have "rcost netK a b \<noteq> Inf" by auto
    then obtain q where "is_path netK a b q" "path_cost netK q = rcost netK a b"
      using realK by (auto simp: realizable_def)
    then have "is_path net a b q \<and> path_cost net q = rcost netK a b"
      using is_path_net_le[OF le] path_net_le[OF le] by simp
    then show ?thesis using low unfolding shortest_def by blast
  qed
  show ?thesis using r(1) rb fixp sh by blast
qed

theorem convergence_on_static_topology_witness:
  "topology_ok driver_network \<and> connected driver_network \<and>
   max 1 (length (nodes driver_network) - 1) \<le> 100 \<and>
   driver_loop 100 driver_network = Inr (2, True, driver_converged) \<and>
   shortest driver_network ''A'' ''C'' (Fin 2) \<and> shortest driver_network ''C'' ''A'' (Fin 2)"
proof -
  have t: "topology_ok driver_network" by code_simp
  have "\<forall>a\<in>set (keys (nodes driver_network)). \<forall>b\<in>set (keys (nodes driver_network)).
          is_path driver_network a b (if a = b then [a] else [a, b])"
    by code_simp
  then have c: "connected driver_network" by (rule connectedI)
  have l: "max 1 (length (nodes driver_network) - 1) \<le> 100" by code_simp
  from convergence_on_static_topology[OF t c l] obtain r net' where
    d: "driver_loop 100 driver_network = Inr (r, True, net')"
    and s: "\<And>a b. has_key (nodes driver_network) a \<and> has_key (nodes driver_network) b \<Longrightarrow>
                  shortest driver_network a b (rcost net' a b)"
    by blast
  have eq: "net' = driver_converged" using d driver_run1 by simp
  have ka: "has_key (nodes driver_network) ''A''" by code_simp
  have kc: "has_key (nodes driver_network) ''C''" by code_simp
  have "rcost driver_converged ''A'' ''C'' = Fin 2" by code_simp
  then have 1: "shortest driver_network ''A'' ''C'' (Fin 2)" using s[of "''A''" "''C''"] ka kc eq by simp
  have "rcost driver_converged ''C'' ''A'' = Fin 2" by code_simp
  then have 2: "shortest driver_network ''C'' ''A'' (Fin 2)" using s[of "''C''" "''A''"] ka kc eq by simp
  show ?thesis using t c l driver_run1 1 2 by simp
qed

text \<open>
The claim as stated fails for a single node: the first round is the one that returns
false, so one round is needed where \<open>N - 1\<close> is zero.
\<close>

theorem convergence_single_node_counterexample:
  "topology_ok single_node \<and> connected single_node \<and> length (nodes single_node) = 1 \<and>
   driver_loop 100 single_node = Inr (1, True, single_node) \<and>
   \<not> (1::nat) \<le> length (nodes single_node) - 1"
proof -
  have t: "topology_ok single_node" by code_simp
  have "\<forall>a\<in>set (keys (nodes single_node)). \<forall>b\<in>set (keys (nodes single_node)).
          is_path single_node a b [a]"
    by code_simp
  then have c: "connected single_node" by (rule connectedI)
  have l: "length (nodes single_node) = 1" by code_simp
  have d: "driver_loop 100 single_node = Inr (1, True, single_node)" by code_simp
  show ?thesis using t c l d by simp
qed

section \<open>Reachable states are well formed\<close>

lemma dict_all_iff:
  "distinct (keys al) \<Longrightarrow> list_all P al = (\<forall>k v. map_of al k = Some v \<longrightarrow> P (k, v))"
  by (auto simp: list_all_iff keys_def)

lemma wf_network_iff:
  "wf_network net = (distinct (keys (nodes net)) \<and> all_nodes node_wf net)"
proof (cases "distinct (keys (nodes net))")
  case True
  then show ?thesis
    by (auto simp: wf_network_def all_nodes_def node_wf_def dict_all_iff)
next
  case False
  then show ?thesis by (simp add: wf_network_def)
qed

lemma keys_update_distinct: "distinct (keys al) \<Longrightarrow> distinct (keys (AList.update k v al))"
  by (simp add: keys_def distinct_update)

lemma all_nodes_empty: "all_nodes Q Network"
  by (simp add: all_nodes_def Network_def)

lemma all_nodes_addNode:
  "all_nodes Q net \<Longrightarrow> Q (Node n) \<Longrightarrow> all_nodes Q (addNode n net)"
  by (auto simp: all_nodes_def addNode_def update_conv' Node_def)

lemma all_nodes_on_node:
  assumes "all_nodes Q net" and "\<And>nd. name nd = k \<Longrightarrow> Q nd \<Longrightarrow> name (f nd) = k \<and> Q (f nd)"
  shows "all_nodes Q (on_node k f net)"
proof (cases "map_of (nodes net) k")
  case None
  then show ?thesis using assms(1) by (simp add: on_node_def)
next
  case (Some nd)
  have "name nd = k \<and> Q nd" using assms(1) Some by (simp add: all_nodes_def)
  then have "name (f nd) = k \<and> Q (f nd)" using assms(2) by simp
  then show ?thesis
    using assms(1) Some by (auto simp: all_nodes_def on_node_nodes[OF Some])
qed

lemma keys_on_node_distinct:
  "distinct (keys (nodes net)) \<Longrightarrow> distinct (keys (nodes (on_node k f net)))"
  by (simp add: on_node_keys)

lemma url_self:
  "updateRoutingTable_loop self m nt upd = Inr (u, s') \<Longrightarrow>
     map_of (routingTable s') (name self) = map_of (routingTable self) (name self)"
proof (induction nt arbitrary: self upd)
  case Nil
  then show ?case by simp
next
  case (Cons e nt)
  obtain d nc h where e: "e = (d, (nc, h))" by (cases e) auto
  show ?case
    using Cons.prems Cons.IH
    by (fastforce simp: e Let_def update_conv' split: if_splits option.splits)
qed

lemma url_node_wf:
  "node_wf self \<Longrightarrow> updateRoutingTable_loop self m nt upd = Inr (u, s') \<Longrightarrow> node_wf s'"
  using url_distinct[of self m nt upd u s'] url_frame[of self m nt upd u s']
  by (simp add: node_wf_def)

lemma url_self_route:
  "self_route self \<Longrightarrow> updateRoutingTable_loop self m nt upd = Inr (u, s') \<Longrightarrow> self_route s'"
  using url_self[of self m nt upd u s'] url_frame[of self m nt upd u s']
  by (simp add: self_route_def)

lemma nl_preserves:
  assumes step: "\<And>self m nt upd u s'. Q self \<Longrightarrow>
      updateRoutingTable_loop self m nt upd = Inr (u, s') \<Longrightarrow> Q s'"
  shows "neighbors_loop n nv ms net upd = Inr (u, net') \<Longrightarrow> map_of (nodes net) n = Some nv \<Longrightarrow>
     all_nodes Q net \<Longrightarrow> all_nodes Q net'"
proof (induction ms arbitrary: nv net upd)
  case Nil
  then show ?case by simp
next
  case (Cons m ms)
  show ?case
  proof (cases "map_of (nodes net) m")
    case None
    then have "neighbors_loop n nv ms net upd = Inr (u, net')" using Cons.prems(1) by simp
    from Cons.IH[OF this Cons.prems(2,3)] show ?thesis .
  next
    case (Some mv)
    from Cons.prems(1) Some obtain u1 nv1 where
      r: "updateRoutingTable_loop nv m (routingTable mv) False = Inr (u1, nv1)"
      by (auto simp: updateRoutingTable_def shareTable_def split: sum.splits)
    let ?net1 = "net\<lparr>nodes := AList.update n nv1 (nodes net)\<rparr>"
    have run: "neighbors_loop n nv1 ms ?net1 (upd \<or> u1) = Inr (u, net')"
      using Cons.prems(1) Some r by (simp add: updateRoutingTable_def shareTable_def)
    have cur: "map_of (nodes ?net1) n = Some nv1" by (simp add: update_conv')
    have "name nv = n \<and> Q nv" using Cons.prems(2,3) by (simp add: all_nodes_def)
    then have "name nv1 = n \<and> Q nv1" using step[OF _ r] url_frame[OF r] by simp
    then have "all_nodes Q ?net1"
      using Cons.prems(3) by (auto simp: all_nodes_def update_conv')
    from Cons.IH[OF run cur this] show ?thesis .
  qed
qed

lemma ndl_preserves:
  assumes step: "\<And>self m nt upd u s'. Q self \<Longrightarrow>
      updateRoutingTable_loop self m nt upd = Inr (u, s') \<Longrightarrow> Q s'"
  shows "nodes_loop ns net upd = Inr (u, net') \<Longrightarrow> all_nodes Q net \<Longrightarrow> all_nodes Q net'"
proof (induction ns arbitrary: net upd)
  case Nil
  then show ?case by simp
next
  case (Cons n ns)
  show ?case
  proof (cases "map_of (nodes net) n")
    case None
    then have "nodes_loop ns net upd = Inr (u, net')" using Cons.prems(1) by simp
    from Cons.IH[OF this Cons.prems(2)] show ?thesis .
  next
    case (Some nv)
    from Cons.prems(1) Some obtain u1 net1 where
      r: "neighbors_loop n nv (keys (neighbors nv)) net upd = Inr (u1, net1)"
      and run: "nodes_loop ns net1 u1 = Inr (u, net')"
      by (auto split: sum.splits)
    have "all_nodes Q net1"
    proof (rule nl_preserves[where Q = Q, OF _ r Some Cons.prems(2)])
      fix self m nt upd u s'
      assume "Q self" and "updateRoutingTable_loop self m nt upd = Inr (u, s')"
      then show "Q s'" by (rule step)
    qed
    from Cons.IH[OF run this] show ?thesis .
  qed
qed

lemma si_preserves:
  assumes step: "\<And>self m nt upd u s'. Q self \<Longrightarrow>
      updateRoutingTable_loop self m nt upd = Inr (u, s') \<Longrightarrow> Q s'"
    and "simulateIteration net = Inr (u, net')" and "all_nodes Q net"
  shows "all_nodes Q net'"
proof (rule ndl_preserves[where Q = Q and ns = "keys (nodes net)" and net = net and upd = False and u = u])
  fix self m nt upd u s'
  assume "Q self" and "updateRoutingTable_loop self m nt upd = Inr (u, s')"
  then show "Q s'" by (rule step)
next
  show "nodes_loop (keys (nodes net)) net False = Inr (u, net')"
    using assms(2) by (simp add: simulateIteration_def)
next
  show "all_nodes Q net" by (rule assms(3))
qed

lemma si_keys: "simulateIteration net = Inr (u, net') \<Longrightarrow> keys (nodes net') = keys (nodes net)"
  using si_net_le[of net u net'] by (simp add: net_le_def)

lemma node_wf_Node: "node_wf (Node n)"
  by (simp add: node_wf_def Node_def keys_def)

lemma self_route_Node: "self_route (Node n)"
  by (simp add: self_route_def Node_def has_key_def)

lemma node_wf_set_neighbor:
  "node_wf nd \<Longrightarrow> node_wf (nd\<lparr>neighbors := AList.update m c (neighbors nd)\<rparr>)"
  by (simp add: node_wf_def keys_update_distinct)

lemma node_wf_set_route:
  "node_wf nd \<Longrightarrow> node_wf (nd\<lparr>routingTable := AList.update d e (routingTable nd)\<rparr>)"
  by (simp add: node_wf_def keys_update_distinct)

lemma node_wf_disconnect: "node_wf nd \<Longrightarrow> node_wf (disconnectNeighbor nd m)"
  by (simp add: node_wf_def disconnectNeighbor_def keys_update_distinct)

lemma name_disconnect: "name (disconnectNeighbor nd m) = name nd"
  by (simp add: disconnectNeighbor_def)

lemma self_route_set_neighbor:
  "self_route nd \<Longrightarrow> m \<noteq> name nd \<Longrightarrow>
     self_route (nd\<lparr>neighbors := AList.update m c (neighbors nd)\<rparr>)"
  by (simp add: self_route_def has_key_def update_conv')

lemma self_route_set_route:
  "self_route nd \<Longrightarrow> d \<noteq> name nd \<Longrightarrow>
     self_route (nd\<lparr>routingTable := AList.update d e (routingTable nd)\<rparr>)"
  by (simp add: self_route_def update_conv')

lemma self_route_disconnect: "self_route nd \<Longrightarrow> self_route (disconnectNeighbor nd m)"
proof (cases "has_key (neighbors nd) m")
  case False
  assume "self_route nd"
  then show ?thesis using False by (simp add: disconnectNeighbor_def)
next
  case True
  assume s: "self_route nd"
  then have "m \<noteq> name nd" using True by (auto simp: self_route_def)
  then show ?thesis using s True
    by (simp add: disconnectNeighbor_def self_route_def has_key_def update_conv')
qed

lemma all_nodes_connectNodes:
  assumes q: "all_nodes Q net"
    and n: "\<And>nd m c. Q nd \<Longrightarrow> a = b \<or> m \<noteq> name nd \<Longrightarrow>
              Q (nd\<lparr>neighbors := AList.update m c (neighbors nd)\<rparr>)"
    and r: "\<And>nd d e. Q nd \<Longrightarrow> a = b \<or> d \<noteq> name nd \<Longrightarrow>
              Q (nd\<lparr>routingTable := AList.update d e (routingTable nd)\<rparr>)"
  shows "all_nodes Q (connectNodes a b c net)"
proof (cases "has_key (nodes net) a \<and> has_key (nodes net) b")
  case False
  then show ?thesis using q by (auto simp: connectNodes_def)
next
  case True
  let ?n1 = "on_node a (\<lambda>nd. nd\<lparr>neighbors := AList.update b c (neighbors nd)\<rparr>) net"
  let ?n2 = "on_node b (\<lambda>nd. nd\<lparr>neighbors := AList.update a c (neighbors nd)\<rparr>) ?n1"
  let ?n3 = "on_node a (\<lambda>nd. nd\<lparr>routingTable := AList.update b (c, Some b) (routingTable nd)\<rparr>) ?n2"
  let ?n4 = "on_node b (\<lambda>nd. nd\<lparr>routingTable := AList.update a (c, Some a) (routingTable nd)\<rparr>) ?n3"
  have 1: "all_nodes Q ?n1"
  proof (rule all_nodes_on_node[OF q])
    fix nd assume "name nd = a" and "Q nd"
    then show "name (nd\<lparr>neighbors := AList.update b c (neighbors nd)\<rparr>) = a \<and>
               Q (nd\<lparr>neighbors := AList.update b c (neighbors nd)\<rparr>)"
      using n[of nd b c] by auto
  qed
  have 2: "all_nodes Q ?n2"
  proof (rule all_nodes_on_node[OF 1])
    fix nd assume "name nd = b" and "Q nd"
    then show "name (nd\<lparr>neighbors := AList.update a c (neighbors nd)\<rparr>) = b \<and>
               Q (nd\<lparr>neighbors := AList.update a c (neighbors nd)\<rparr>)"
      using n[of nd a c] by auto
  qed
  have 3: "all_nodes Q ?n3"
  proof (rule all_nodes_on_node[OF 2])
    fix nd assume "name nd = a" and "Q nd"
    then show "name (nd\<lparr>routingTable := AList.update b (c, Some b) (routingTable nd)\<rparr>) = a \<and>
               Q (nd\<lparr>routingTable := AList.update b (c, Some b) (routingTable nd)\<rparr>)"
      using r[of nd b "(c, Some b)"] by auto
  qed
  have 4: "all_nodes Q ?n4"
  proof (rule all_nodes_on_node[OF 3])
    fix nd assume "name nd = b" and "Q nd"
    then show "name (nd\<lparr>routingTable := AList.update a (c, Some a) (routingTable nd)\<rparr>) = b \<and>
               Q (nd\<lparr>routingTable := AList.update a (c, Some a) (routingTable nd)\<rparr>)"
      using r[of nd a "(c, Some a)"] by auto
  qed
  show ?thesis using 4 True by (simp add: connectNodes_def)
qed

lemma connectNodes_keys: "keys (nodes (connectNodes a b c net)) = keys (nodes net)"
  by (simp add: connectNodes_def on_node_keys)

lemma all_nodes_simulateFailure:
  assumes "all_nodes Q net" and "simulateFailure a b net = Inr (out, net')"
    and "\<And>nd m. Q nd \<Longrightarrow> Q (disconnectNeighbor nd m)"
  shows "all_nodes Q net'"
proof (cases "\<not> has_key (nodes net) a \<or> \<not> has_key (nodes net) b")
  case True
  then show ?thesis using assms(1,2) by (auto simp: simulateFailure_def)
next
  case False
  have 1: "all_nodes Q (on_node a (\<lambda>nd. disconnectNeighbor nd b) net)" (is "all_nodes Q ?n1")
    by (rule all_nodes_on_node[OF assms(1)]) (simp add: name_disconnect assms(3))
  have "all_nodes Q (on_node b (\<lambda>nd. disconnectNeighbor nd a) ?n1)"
    by (rule all_nodes_on_node[OF 1]) (simp add: name_disconnect assms(3))
  then show ?thesis using False assms(2) by (auto simp: simulateFailure_def)
qed

lemma simulateFailure_keys:
  "simulateFailure a b net = Inr (out, net') \<Longrightarrow> keys (nodes net') = keys (nodes net)"
  by (auto simp: simulateFailure_def on_node_keys split: if_splits)

text \<open>
Every state the program can reach has well-formed dictionaries and stores every node
under its own name.
\<close>

lemma reachable_wf_network: "reachable net \<Longrightarrow> wf_network net"
proof (induction rule: reachable.induct)
  case reach_init
  then show ?case by (simp add: wf_network_def Network_def keys_def)
next
  case (reach_addNode net n)
  then show ?case
    by (simp add: wf_network_iff all_nodes_addNode node_wf_Node)
       (simp add: addNode_def keys_update_distinct)
next
  case (reach_connectNodes net a b c)
  have "all_nodes node_wf net" using reach_connectNodes.IH by (simp add: wf_network_iff)
  then have "all_nodes node_wf (connectNodes a b c net)"
    by (rule all_nodes_connectNodes) (simp_all add: node_wf_set_neighbor node_wf_set_route)
  then show ?case using reach_connectNodes.IH by (simp add: wf_network_iff connectNodes_keys)
next
  case (reach_simulateIteration net u net')
  have "all_nodes node_wf net" using reach_simulateIteration.IH by (simp add: wf_network_iff)
  with url_node_wf reach_simulateIteration.hyps(2) have "all_nodes node_wf net'"
    by (rule si_preserves)
  then show ?case
    using reach_simulateIteration.IH si_keys[OF reach_simulateIteration.hyps(2)]
    by (simp add: wf_network_iff)
next
  case (reach_disconnectNeighbor net n m)
  have "all_nodes node_wf net" using reach_disconnectNeighbor.IH by (simp add: wf_network_iff)
  then have "all_nodes node_wf (on_node n (\<lambda>nd. disconnectNeighbor nd m) net)"
    by (rule all_nodes_on_node) (simp add: name_disconnect node_wf_disconnect)
  then show ?case using reach_disconnectNeighbor.IH by (simp add: wf_network_iff on_node_keys)
next
  case (reach_simulateFailure net a b out net')
  have "all_nodes node_wf net" using reach_simulateFailure.IH by (simp add: wf_network_iff)
  then have "all_nodes node_wf net'"
    using reach_simulateFailure.hyps(2) by (rule all_nodes_simulateFailure) (rule node_wf_disconnect)
  then show ?case
    using reach_simulateFailure.IH simulateFailure_keys[OF reach_simulateFailure.hyps(2)]
    by (simp add: wf_network_iff)
qed

lemma reachable_plain_self_route: "reachable_plain net \<Longrightarrow> all_nodes self_route net"
proof (induction rule: reachable_plain.induct)
  case plain_init
  then show ?case by (rule all_nodes_empty)
next
  case (plain_addNode net n)
  then show ?case by (simp add: all_nodes_addNode self_route_Node)
next
  case (plain_connectNodes net a b c)
  from plain_connectNodes.IH show ?case
    by (rule all_nodes_connectNodes)
       (use plain_connectNodes.hyps(2) in \<open>simp_all add: self_route_set_neighbor self_route_set_route\<close>)
next
  case (plain_simulateIteration net u net')
  from url_self_route plain_simulateIteration.hyps(2) plain_simulateIteration.IH show ?case
    by (rule si_preserves)
next
  case (plain_disconnectNeighbor net n m)
  from plain_disconnectNeighbor.IH show ?case
    by (rule all_nodes_on_node) (simp add: name_disconnect self_route_disconnect)
next
  case (plain_simulateFailure net a b out net')
  from plain_simulateFailure.IH plain_simulateFailure.hyps(2) show ?case
    by (rule all_nodes_simulateFailure) (rule self_route_disconnect)
qed

text \<open>
As long as \<open>connectNodes\<close> is not called with both ids equal, every node keeps the
entry (0, own name) for itself, whatever else is called.
\<close>

lemma self_route_without_self_links:
  assumes "reachable_plain net" and "has_key (nodes net) n"
  shows "route_of net n n = Some (Fin 0, Some n)"
proof -
  from assms(2) obtain nd where nd: "map_of (nodes net) n = Some nd" by (auto simp: has_key_def)
  have "name nd = n \<and> self_route nd"
    using reachable_plain_self_route[OF assms(1)] nd by (simp add: all_nodes_def)
  then have "map_of (routingTable nd) n = Some (Fin 0, Some n)"
    by (auto simp: self_route_def)
  then show ?thesis using nd by (simp add: route_of_def)
qed

section \<open>Topologies built by addNode and connectNodes\<close>

lemma dict_all_iff2:
  "distinct (keys al) \<Longrightarrow> list_all (\<lambda>(k, v). P k v) al = (\<forall>k v. map_of al k = Some v \<longrightarrow> P k v)"
  by (auto simp: list_all_iff keys_def)

lemma node_ok_iff:
  "node_ok net k nd =
     (name nd = k \<and> distinct (keys (neighbors nd)) \<and> distinct (keys (routingTable nd)) \<and>
      map_of (routingTable nd) k = Some (Fin 0, Some k) \<and>
      (\<forall>m c. map_of (neighbors nd) m = Some c \<longrightarrow>
          m \<noteq> k \<and> has_key (nodes net) m \<and> Fin 0 \<le> c \<and> c \<noteq> Inf \<and>
          map_of (routingTable nd) m = Some (c, Some m)) \<and>
      (\<forall>d e. map_of (routingTable nd) d = Some e \<longrightarrow> d = k \<or> has_key (neighbors nd) d))"
proof (cases "distinct (keys (neighbors nd)) \<and> distinct (keys (routingTable nd))")
  case True
  then show ?thesis
    unfolding node_ok_def by (simp add: dict_all_iff2)
next
  case False
  then show ?thesis by (auto simp: node_ok_def)
qed

lemma topology_ok_iff:
  "topology_ok net =
     (distinct (keys (nodes net)) \<and> (\<forall>k nd. map_of (nodes net) k = Some nd \<longrightarrow> node_ok net k nd))"
proof (cases "distinct (keys (nodes net))")
  case True
  then show ?thesis unfolding topology_ok_def by (simp add: dict_all_iff2)
next
  case False
  then show ?thesis by (simp add: topology_ok_def)
qed

lemma node_ok_mono:
  assumes "node_ok net k nd" and "\<And>m. has_key (nodes net) m \<Longrightarrow> has_key (nodes net') m"
  shows "node_ok net' k nd"
  using assms unfolding node_ok_iff by blast

lemma node_ok_Node: "node_ok net n (Node n)"
  by (simp add: node_ok_iff Node_def keys_def has_key_def)

lemma node_ok_connect:
  assumes ok: "node_ok net a na" and ab: "b \<noteq> a" and kb: "has_key (nodes net) b" and w: "0 \<le> w"
  shows "node_ok net a (na\<lparr>neighbors := AList.update b (Fin w) (neighbors na),
                           routingTable := AList.update b (Fin w, Some b) (routingTable na)\<rparr>)"
proof -
  have 1: "name na = a" "distinct (keys (neighbors na))" "distinct (keys (routingTable na))"
    "map_of (routingTable na) a = Some (Fin 0, Some a)"
    using ok by (simp_all add: node_ok_iff)
  have 2: "\<And>m c. map_of (neighbors na) m = Some c \<Longrightarrow>
          m \<noteq> a \<and> has_key (nodes net) m \<and> Fin 0 \<le> c \<and> c \<noteq> Inf \<and>
          map_of (routingTable na) m = Some (c, Some m)"
    using ok unfolding node_ok_iff by blast
  have 3: "\<And>d e. map_of (routingTable na) d = Some e \<Longrightarrow> d = a \<or> has_key (neighbors na) d"
    using ok unfolding node_ok_iff by blast
  show ?thesis
    unfolding node_ok_iff
  proof (intro conjI allI impI)
    show "name (na\<lparr>neighbors := AList.update b (Fin w) (neighbors na),
                    routingTable := AList.update b (Fin w, Some b) (routingTable na)\<rparr>) = a"
      using 1 by simp
  next
    fix m c
    assume "map_of (neighbors (na\<lparr>neighbors := AList.update b (Fin w) (neighbors na),
                    routingTable := AList.update b (Fin w, Some b) (routingTable na)\<rparr>)) m = Some c"
    then have mc: "(m = b \<and> c = Fin w) \<or> (m \<noteq> b \<and> map_of (neighbors na) m = Some c)"
      by (auto simp: update_conv' split: if_splits)
    show "m \<noteq> a" using mc ab 2 by auto
    show "has_key (nodes net) m" using mc kb 2 by auto
    show "Fin 0 \<le> c" using mc w 2 by auto
    show "c \<noteq> Inf" using mc 2 by auto
    show "map_of (routingTable (na\<lparr>neighbors := AList.update b (Fin w) (neighbors na),
                    routingTable := AList.update b (Fin w, Some b) (routingTable na)\<rparr>)) m = Some (c, Some m)"
      using mc 2 by (auto simp: update_conv')
  next
    fix d e
    assume "map_of (routingTable (na\<lparr>neighbors := AList.update b (Fin w) (neighbors na),
                    routingTable := AList.update b (Fin w, Some b) (routingTable na)\<rparr>)) d = Some e"
    then have "d = b \<or> map_of (routingTable na) d = Some e"
      by (auto simp: update_conv' split: if_splits)
    then have "d = b \<or> d = a \<or> has_key (neighbors na) d"
      using 3[of d e] by blast
    then show "d = a \<or> has_key (neighbors (na\<lparr>neighbors := AList.update b (Fin w) (neighbors na),
                    routingTable := AList.update b (Fin w, Some b) (routingTable na)\<rparr>)) d"
      by (auto simp: has_key_def update_conv')
  qed (use 1 ab in \<open>simp_all add: keys_update_distinct update_conv'\<close>)
qed

lemma connectNodes_nodes:
  assumes na: "map_of (nodes net) a = Some na" and nb: "map_of (nodes net) b = Some nb"
    and ab: "a \<noteq> b"
  shows "map_of (nodes (connectNodes a b c net)) =
     (map_of (nodes net))
       (a \<mapsto> na\<lparr>neighbors := AList.update b c (neighbors na),
                  routingTable := AList.update b (c, Some b) (routingTable na)\<rparr>,
        b \<mapsto> nb\<lparr>neighbors := AList.update a c (neighbors nb),
                  routingTable := AList.update a (c, Some a) (routingTable nb)\<rparr>)"
proof -
  let ?n1 = "on_node a (\<lambda>nd. nd\<lparr>neighbors := AList.update b c (neighbors nd)\<rparr>) net"
  let ?n2 = "on_node b (\<lambda>nd. nd\<lparr>neighbors := AList.update a c (neighbors nd)\<rparr>) ?n1"
  let ?n3 = "on_node a (\<lambda>nd. nd\<lparr>routingTable := AList.update b (c, Some b) (routingTable nd)\<rparr>) ?n2"
  let ?n4 = "on_node b (\<lambda>nd. nd\<lparr>routingTable := AList.update a (c, Some a) (routingTable nd)\<rparr>) ?n3"
  have m1: "map_of (nodes ?n1) = (map_of (nodes net))(a \<mapsto> na\<lparr>neighbors := AList.update b c (neighbors na)\<rparr>)"
    using on_node_nodes[OF na] .
  have b1: "map_of (nodes ?n1) b = Some nb" using m1 nb ab by simp
  have m2: "map_of (nodes ?n2) = (map_of (nodes ?n1))(b \<mapsto> nb\<lparr>neighbors := AList.update a c (neighbors nb)\<rparr>)"
    using on_node_nodes[OF b1] .
  have a2: "map_of (nodes ?n2) a = Some (na\<lparr>neighbors := AList.update b c (neighbors na)\<rparr>)"
    using m2 m1 ab by simp
  have m3: "map_of (nodes ?n3) = (map_of (nodes ?n2))(a \<mapsto> na\<lparr>neighbors := AList.update b c (neighbors na),
                  routingTable := AList.update b (c, Some b) (routingTable na)\<rparr>)"
    using on_node_nodes[OF a2, of "\<lambda>nd. nd\<lparr>routingTable := AList.update b (c, Some b) (routingTable nd)\<rparr>"]
    by simp
  have b3: "map_of (nodes ?n3) b = Some (nb\<lparr>neighbors := AList.update a c (neighbors nb)\<rparr>)"
    using m3 m2 ab by simp
  have m4: "map_of (nodes ?n4) = (map_of (nodes ?n3))(b \<mapsto> nb\<lparr>neighbors := AList.update a c (neighbors nb),
                  routingTable := AList.update a (c, Some a) (routingTable nb)\<rparr>)"
    using on_node_nodes[OF b3, of "\<lambda>nd. nd\<lparr>routingTable := AList.update a (c, Some a) (routingTable nd)\<rparr>"]
    by simp
  have "connectNodes a b c net = ?n4" using na nb by (simp add: connectNodes_def has_key_def)
  then show ?thesis using m4 m3 m2 m1 ab by (auto simp: fun_eq_iff)
qed

lemma connectNodes_has_key:
  "has_key (nodes (connectNodes a b c net)) m = has_key (nodes net) m"
  by (simp add: connectNodes_def on_node_has_key)

lemma topology_ok_Network: "topology_ok Network"
  by (simp add: topology_ok_def Network_def keys_def)

lemma topology_ok_addNode:
  assumes "topology_ok net"
  shows "topology_ok (addNode n net)"
  unfolding topology_ok_iff
proof (intro conjI allI impI)
  show "distinct (keys (nodes (addNode n net)))"
    using assms by (simp add: topology_ok_iff addNode_def keys_update_distinct)
next
  fix k nd
  assume h: "map_of (nodes (addNode n net)) k = Some nd"
  have mono: "\<And>m. has_key (nodes net) m \<Longrightarrow> has_key (nodes (addNode n net)) m"
    by (simp add: has_key_def addNode_def update_conv')
  show "node_ok (addNode n net) k nd"
  proof (cases "k = n")
    case True
    then have "nd = Node n" using h by (simp add: addNode_def update_conv')
    then show ?thesis using True by (simp add: node_ok_Node)
  next
    case False
    then have "map_of (nodes net) k = Some nd" using h by (simp add: addNode_def update_conv')
    then have "node_ok net k nd" using assms by (simp add: topology_ok_iff)
    then show ?thesis using mono by (rule node_ok_mono)
  qed
qed

lemma topology_ok_connectNodes:
  assumes t: "topology_ok net" and ab: "a \<noteq> b" and w: "0 \<le> w"
  shows "topology_ok (connectNodes a b (Fin w) net)"
proof (cases "has_key (nodes net) a \<and> has_key (nodes net) b")
  case False
  then show ?thesis using t by (auto simp: connectNodes_def)
next
  case True
  then obtain na nb where na: "map_of (nodes net) a = Some na" and nb: "map_of (nodes net) b = Some nb"
    by (auto simp: has_key_def)
  let ?net' = "connectNodes a b (Fin w) net"
  have oka: "node_ok net a na" and okb: "node_ok net b nb"
    using t na nb by (simp_all add: topology_ok_iff)
  have mono: "\<And>m. has_key (nodes net) m \<Longrightarrow> has_key (nodes ?net') m"
    by (simp add: connectNodes_has_key)
  show ?thesis
    unfolding topology_ok_iff
  proof (intro conjI allI impI)
    show "distinct (keys (nodes ?net'))"
      using t by (simp add: topology_ok_iff connectNodes_keys)
  next
    fix k nd
    assume h: "map_of (nodes ?net') k = Some nd"
    have "node_ok net k nd"
    proof (cases "k = b")
      case True
      then have "nd = nb\<lparr>neighbors := AList.update a (Fin w) (neighbors nb),
                  routingTable := AList.update a (Fin w, Some a) (routingTable nb)\<rparr>"
        using h connectNodes_nodes[OF na nb ab, of "Fin w"] by simp
      moreover have "has_key (nodes net) a" using na by (simp add: has_key_def)
      ultimately show ?thesis using node_ok_connect[OF okb ab _ w] True by simp
    next
      case False
      note kb = False
      show ?thesis
      proof (cases "k = a")
        case True
        then have "nd = na\<lparr>neighbors := AList.update b (Fin w) (neighbors na),
                  routingTable := AList.update b (Fin w, Some b) (routingTable na)\<rparr>"
          using h connectNodes_nodes[OF na nb ab, of "Fin w"] ab by simp
        moreover have "has_key (nodes net) b" using nb by (simp add: has_key_def)
        ultimately show ?thesis using node_ok_connect[OF oka ab[symmetric] _ w] True by simp
      next
        case False
        then have "map_of (nodes net) k = Some nd"
          using h kb connectNodes_nodes[OF na nb ab, of "Fin w"] by simp
        then show ?thesis using t by (simp add: topology_ok_iff)
      qed
    qed
    then show "node_ok ?net' k nd" using mono by (rule node_ok_mono)
  qed
qed

text \<open>
Every network built by \<open>addNode\<close> and by \<open>connectNodes\<close> with two different ids and a
finite non-negative cost is a topology in the sense of \<open>topology_ok\<close>.
\<close>

lemma built_topology_ok: "built net \<Longrightarrow> topology_ok net"
  by (induction rule: built.induct)
     (simp_all add: topology_ok_Network topology_ok_addNode topology_ok_connectNodes)

lemma topology_ok_wf_network: "topology_ok net \<Longrightarrow> wf_network net"
  unfolding wf_network_iff topology_ok_iff all_nodes_def node_wf_def node_ok_iff by blast

lemma built_driver_network: "built driver_network"
  unfolding driver_network_def
  by (intro built.intros) simp_all

end
